theory Spec2Isabelle
  imports Main
begin

section \<open>JavaScript string primitives used by the sources\<close>

text \<open>
  \<open>String.prototype.lastIndexOf\<close> for a one-character needle: the index of the last
  occurrence, or \<open>-1\<close> when the character does not occur.  The scan keeps the last
  index at which the character was seen.
\<close>

primrec lastIndexOfFrom :: "char \<Rightarrow> string \<Rightarrow> int \<Rightarrow> int \<Rightarrow> int" where
  "lastIndexOfFrom c [] i found = found"
| "lastIndexOfFrom c (x # xs) i found =
     lastIndexOfFrom c xs (i + 1) (if x = c then i else found)"

definition lastIndexOf :: "string \<Rightarrow> char \<Rightarrow> int" where
  "lastIndexOf s c = lastIndexOfFrom c s 0 (- 1)"

text \<open>
  \<open>String.prototype.substring(start, end)\<close>: both indices are clamped to
  \<open>[0, length]\<close> and swapped when \<open>start > end\<close>.
\<close>

definition clampIndex :: "string \<Rightarrow> int \<Rightarrow> nat" where
  "clampIndex s i = (if i < 0 then 0 else if i > int (length s) then length s else nat i)"

definition substring :: "string \<Rightarrow> int \<Rightarrow> int \<Rightarrow> string" where
  "substring s start end =
     (let a = clampIndex s start; b = clampIndex s end;
          lo = min a b; hi = max a b
      in take (hi - lo) (drop lo s))"

definition substringFrom :: "string \<Rightarrow> int \<Rightarrow> string" where
  "substringFrom s start = substring s start (int (length s))"

section \<open>RequestContext.js\<close>

record 'c RequestContext =
  rc_cfg :: 'c
  rc_url :: "string option"
  rc_path :: string
  rc_selector :: string
  rc_extension :: string
  rc_resourcePath :: string

text \<open>
  \<open>url || '/'\<close>: an absent (\<open>undefined\<close>) url and the empty string are both falsy.
\<close>

definition urlOrRoot :: "string option \<Rightarrow> string" where
  "urlOrRoot url = (case url of None \<Rightarrow> ''/'' | Some u \<Rightarrow> if u = [] then ''/'' else u)"

text \<open>The constructor \<open>new RequestContext(req, cfg)\<close>, with \<open>url = req.url\<close>.\<close>

definition newRequestContext :: "string option \<Rightarrow> 'c \<Rightarrow> 'c RequestContext" where
  "newRequestContext url cfg =
     (let path = urlOrRoot url;
          relPath = path;
          lastSlash = lastIndexOf relPath CHR ''/'';
          lastDot = lastIndexOf relPath CHR ''.''
      in if lastDot > lastSlash then
           (let relPath1 = substring relPath 0 lastDot;
                queryParamIndex = lastIndexOf path CHR ''?'';
                ext = substring path (lastDot + 1)
                        (if queryParamIndex \<noteq> - 1 then queryParamIndex else int (length path));
                selDot = lastIndexOf relPath1 CHR ''.''
            in if selDot > lastSlash then
                 \<lparr> rc_cfg = cfg, rc_url = url, rc_path = path,
                   rc_selector = substringFrom relPath1 (selDot + 1),
                   rc_extension = ext,
                   rc_resourcePath = substring relPath1 0 selDot \<rparr>
               else
                 \<lparr> rc_cfg = cfg, rc_url = url, rc_path = path,
                   rc_selector = [], rc_extension = ext,
                   rc_resourcePath = relPath1 \<rparr>)
         else if lastSlash = int (length relPath) - 1 then
           \<lparr> rc_cfg = cfg, rc_url = url, rc_path = path,
             rc_selector = [], rc_extension = [],
             rc_resourcePath = relPath @ ''index'' \<rparr>
         else
           \<lparr> rc_cfg = cfg, rc_url = url, rc_path = path,
             rc_selector = [], rc_extension = [],
             rc_resourcePath = relPath \<rparr>)"

section \<open>package.cmd.js: data\<close>

text \<open>
  The action descriptor (\<open>ActionInfo\<close> in the source's typedef, with the \<open>isStatic\<close>
  and \<open>dirname\<close> properties that \<open>run\<close> reads and writes).  The two fields the command
  deletes or sets late, \<open>zipFile\<close> and \<open>archiveSize\<close>, are optional: \<open>None\<close> is an
  absent (\<open>undefined\<close>) property.  The other fields have the types the typedef gives
  them.
\<close>

record ActionInfo =
  name :: string
  main :: string
  isStatic :: bool
  requires :: "string list"
  dirname :: string
  bundleName :: string
  bundlePath :: string
  archiveName :: string
  zipFile :: "string option"
  archiveSize :: "nat option"
  infoFile :: string

datatype Err = Error string | TypeError string

text \<open>
  Node's \<open>path\<close> module and \<open>chalk\<close> are platform libraries; the command is
  modelled over any implementation of the functions it calls.
\<close>

record Platform =
  path_basename :: "string \<Rightarrow> string"
  path_basename_ext :: "string \<Rightarrow> string \<Rightarrow> string"
  path_dirname :: "string \<Rightarrow> string"
  path_resolve :: "string list \<Rightarrow> string"
  chalk_redBright :: "string \<Rightarrow> string"

text \<open>What is logged: a formatted message, or a diagnostic object handed over by the bundler.\<close>

datatype LogArg = Msg string | Diag string

datatype Notification = IgnorePackage ActionInfo | CreatePackage ActionInfo

text \<open>
  The observable effects of the command, in the order in which they happen.  The three
  archive requests name the archive by the path of the write stream it is piped to.
\<close>

datatype Action =
    PathExists string
  | Emit Notification
  | BundlerRun "(string \<times> string) list"
  | LogDebug string
  | LogInfo string
  | LogWarn LogArg
  | LogError LogArg
  | CreateWriteStream string
  | ArchiveAppend string string string
  | ArchiveFile string string string
  | ArchiveFinalize string
  | WriteJson string ActionInfo

text \<open>
  What the archiver and its output stream signal back to the handlers registered in
  \<open>createPackage\<close>; \<open>Close n\<close> is the \<open>close\<close> of the write stream, at which
  \<open>archive.pointer()\<close> reads \<open>n\<close>.
\<close>

datatype ArchiveEvent = Entry string | Warning Err | Failure Err | Close nat

datatype PromiseState = Pending | Resolved ActionInfo | Rejected Err

record PackageOp =
  info :: ActionInfo
  opArchiveName :: string
  listening :: bool
  hadErrors :: bool
  promise :: PromiseState

record Stats =
  errors :: "string list option"
  warnings :: "string list option"

text \<open>
  The collaborators of a run: the inherited \<open>init\<close>, the build command, \<open>glob\<close> and
  \<open>readJSON\<close>, \<open>pathExists\<close>, the bundler, the events of the archives (each tagged
  with the index of its script in the working set, in the order of their delivery) and
  \<open>writeJson\<close>.
\<close>

record Env =
  superInit :: "Err option"
  buildRun :: "string list \<Rightarrow> string \<Rightarrow> Err option"
  globSync :: "string \<Rightarrow> string list"
  readJSON :: "string \<Rightarrow> Err + ActionInfo"
  pathExists :: "string \<Rightarrow> bool"
  bundlerRun :: "string \<Rightarrow> bool \<Rightarrow> (string \<times> string) list \<Rightarrow> Err + Stats"
  archiveEvents :: "(nat \<times> ArchiveEvent) list"
  writeJson :: "string \<Rightarrow> ActionInfo \<Rightarrow> Err option"

record PackageCommand =
  directory :: string
  target :: string
  files :: "string list"
  onlyModified :: bool
  enableMinify :: bool

datatype Outcome = Completed | Failed Err | NeverSettles

section \<open>JSON.stringify of the package manifest\<close>

definition hexDigit :: "nat \<Rightarrow> char" where
  "hexDigit n = (''0123456789abcdef'') ! (n mod 16)"

text \<open>\<open>QuoteJSONString\<close>, character by character.\<close>

definition jsonEscape :: "char \<Rightarrow> string" where
  "jsonEscape c =
     (if c = CHR 0x08 then [CHR 0x5C, CHR ''b'']
      else if c = CHR 0x09 then [CHR 0x5C, CHR ''t'']
      else if c = CHR 0x0A then [CHR 0x5C, CHR ''n'']
      else if c = CHR 0x0C then [CHR 0x5C, CHR ''f'']
      else if c = CHR 0x0D then [CHR 0x5C, CHR ''r'']
      else if c = CHR 0x22 then [CHR 0x5C, CHR 0x22]
      else if c = CHR 0x5C then [CHR 0x5C, CHR 0x5C]
      else if (of_char c :: nat) < 32
        then [CHR 0x5C, CHR ''u'', CHR ''0'', CHR ''0'',
              hexDigit (of_char c div 16), hexDigit (of_char c)]
      else [c])"

definition jsonQuote :: "string \<Rightarrow> string" where
  "jsonQuote s = [CHR 0x22] @ concat (map jsonEscape s) @ [CHR 0x22]"

fun joinWith :: "string \<Rightarrow> string list \<Rightarrow> string" where
  "joinWith sep [] = []"
| "joinWith sep [x] = x"
| "joinWith sep (x # y # ys) = x @ sep @ joinWith sep (y # ys)"

text \<open>
  \<open>JSON.stringify(obj, null, '  ')\<close> for an object whose properties are all strings,
  given in insertion order.
\<close>

definition stringifyIndented :: "(string \<times> string) list \<Rightarrow> string" where
  "stringifyIndented props =
     (if props = [] then ''{}''
      else ''{'' @ [CHR 0x0A]
        @ joinWith ('','' @ [CHR 0x0A])
            (map (\<lambda>(k, v). ''  '' @ jsonQuote k @ '': '' @ jsonQuote v) props)
        @ [CHR 0x0A] @ ''}'')"

text \<open>Decimal rendering of a number in a template string.\<close>

fun showNat :: "nat \<Rightarrow> string" where
  "showNat n = (if n < 10 then [hexDigit n] else showNat (n div 10) @ [hexDigit (n mod 10)])"

declare showNat.simps [simp del]

section \<open>packager-utils.js: flattenDependencies\<close>

text \<open>
  Modelled from the spec: \<open>flattenDependencies\<close> of \<open>packager-utils.js\<close> is required by
  \<open>package.cmd.js\<close> but is not among the sources.  The spec's contract (section 4.1):
  the output is the same descriptors, each with \<open>requires\<close> replaced by its resolved,
  deduplicated transitive closure, a dependency's own dependencies being merged in;
  cycles do not cause non-termination and a script reaching itself is resolved to the
  closure without itself.  A path of a \<open>requires\<close> list refers to the descriptors whose
  \<open>main\<close> is that path.
\<close>

definition directRequires :: "ActionInfo list \<Rightarrow> string \<Rightarrow> string list" where
  "directRequires scripts p = concat (map requires (filter (\<lambda>s. main s = p) scripts))"

definition allRequired :: "ActionInfo list \<Rightarrow> string set" where
  "allRequired scripts = set (concat (map requires scripts))"

text \<open>
  Modelled from the spec: the closure is collected by a worklist; a path already seen is
  skipped, which is what makes cycles harmless.
\<close>

function resolveRequires :: "ActionInfo list \<Rightarrow> string list \<Rightarrow> string list \<Rightarrow> string list" where
  "resolveRequires scripts [] seen = seen"
| "resolveRequires scripts (p # todo) seen =
     (if p \<in> set seen then resolveRequires scripts todo seen
      else resolveRequires scripts (directRequires scripts p @ todo) (seen @ [p]))"
  by pat_completeness auto

lemma directRequires_subset: "set (directRequires scripts p) \<subseteq> allRequired scripts"
  by (auto simp: directRequires_def allRequired_def)

termination resolveRequires
proof (relation "inv_image (less_than <*lex*> less_than)
    (\<lambda>(scripts, todo, seen). (card ((allRequired scripts \<union> set todo) - set seen), length todo))")
  show "wf (inv_image (less_than <*lex*> less_than)
    (\<lambda>(scripts, todo, seen). (card ((allRequired scripts \<union> set todo) - set seen), length todo)))"
    by (intro wf_inv_image wf_lex_prod wf_less_than)
next
  fix scripts :: "ActionInfo list" and p :: string and todo seen :: "string list"
  assume "p \<in> set seen"
  then have "(allRequired scripts \<union> set todo) - set seen
           = (allRequired scripts \<union> set (p # todo)) - set seen"
    by auto
  then show "((scripts, todo, seen), (scripts, p # todo, seen))
      \<in> inv_image (less_than <*lex*> less_than)
          (\<lambda>(scripts, todo, seen). (card ((allRequired scripts \<union> set todo) - set seen), length todo))"
    by simp
next
  fix scripts :: "ActionInfo list" and p :: string and todo seen :: "string list"
  assume notin: "p \<notin> set seen"
  let ?old = "(allRequired scripts \<union> set (p # todo)) - set seen"
  let ?new = "(allRequired scripts \<union> set (directRequires scripts p @ todo)) - set (seen @ [p])"
  have fin: "finite ?old"
    by (simp add: allRequired_def)
  have "?new \<subseteq> ?old - {p}"
    using directRequires_subset [of scripts p] by auto
  moreover have "p \<in> ?old"
    using notin by simp
  ultimately have "?new \<subset> ?old"
    by blast
  then have "card ?new < card ?old"
    by (rule psubset_card_mono [OF fin])
  then show "((scripts, directRequires scripts p @ todo, seen @ [p]), (scripts, p # todo, seen))
      \<in> inv_image (less_than <*lex*> less_than)
          (\<lambda>(scripts, todo, seen). (card ((allRequired scripts \<union> set todo) - set seen), length todo))"
    by simp
qed

text \<open>
  Modelled from the spec: the flattened \<open>requires\<close> of one descriptor is the closure of its
  own \<open>requires\<close>, in the order of discovery, without the descriptor's own \<open>main\<close>.
\<close>

definition flattenOne :: "ActionInfo list \<Rightarrow> ActionInfo \<Rightarrow> ActionInfo" where
  "flattenOne scripts s =
     s\<lparr>requires := filter (\<lambda>p. p \<noteq> main s) (resolveRequires scripts (requires s) [])\<rparr>"

text \<open>
  Modelled from the spec: \<open>flattenDependencies\<close> (absent from the sources) returns the same
  descriptors in the same order, each with its \<open>requires\<close> flattened.
\<close>

definition flattenDependencies :: "ActionInfo list \<Rightarrow> ActionInfo list" where
  "flattenDependencies scripts = map (flattenOne scripts) scripts"

section \<open>package.cmd.js: createPackage\<close>

text \<open>\<open>resolve\<close> and \<open>reject\<close> of a promise have an effect only while it is pending.\<close>

definition settle :: "PromiseState \<Rightarrow> PromiseState \<Rightarrow> PromiseState" where
  "settle cur new = (if cur = Pending then new else cur)"

fun errMessage :: "Err \<Rightarrow> string" where
  "errMessage (Error m) = m"
| "errMessage (TypeError m) = m"

text \<open>The manifest object of \<open>createPackage\<close>, as its properties in insertion order.\<close>

definition packageJson :: "Platform \<Rightarrow> ActionInfo \<Rightarrow> (string \<times> string) list" where
  "packageJson P i =
     [(''name'', name i),
      (''version'', ''1.0''),
      (''description'', ''Lambda function of '' @ name i),
      (''main'', path_basename P (main i)),
      (''license'', ''Apache-2.0'')]"

text \<open>
  The synchronous part of \<open>createPackage\<close>: the executor of the promise up to
  \<open>archive.finalize()\<close>.  \<open>path.basename\<close> of an absent \<open>zipFile\<close> throws; the throw
  inside the executor rejects the promise before any stream exists or any handler is
  registered.
\<close>

definition createPackageStart :: "Platform \<Rightarrow> ActionInfo \<Rightarrow> PackageOp \<times> Action list" where
  "createPackageStart P i =
     (case zipFile i of
        None \<Rightarrow>
          (\<lparr>info = i, opArchiveName = [], listening = False, hadErrors = False,
            promise = Rejected (TypeError ''The path argument must be of type string'')\<rparr>, [])
      | Some z \<Rightarrow>
          (let an = path_basename P z in
           (\<lparr>info = i, opArchiveName = an, listening = True, hadErrors = False,
             promise = Pending\<rparr>,
            [CreateWriteStream z,
             LogDebug (''preparing package '' @ an),
             ArchiveAppend z (stringifyIndented (packageJson P i)) ''package.json'',
             ArchiveFile z (bundlePath i) (path_basename P (main i)),
             ArchiveFinalize z])))"

text \<open>The text logged by the \<open>warning\<close> and \<open>error\<close> handlers.\<close>

definition archiveFailureMessage :: "Platform \<Rightarrow> Err \<Rightarrow> string" where
  "archiveFailureMessage P e =
     chalk_redBright P ''[error] '' @ ''Unable to create archive: '' @ errMessage e"

text \<open>
  The four handlers: \<open>close\<close> of the output, \<open>entry\<close>, \<open>warning\<close> and \<open>error\<close> of the
  archive.  The progress bar passed to \<open>createPackage\<close> only draws; its ticks are not
  part of the trace.
\<close>

fun deliver :: "Platform \<Rightarrow> PackageOp \<Rightarrow> ArchiveEvent \<Rightarrow> PackageOp \<times> Action list" where
  "deliver P pk (Close n) =
     (if listening pk \<and> \<not> hadErrors pk then
        (let i = (info pk)\<lparr>archiveSize := Some n\<rparr> in
         (pk\<lparr>info := i, promise := settle (promise pk) (Resolved i)\<rparr>,
          [LogDebug (opArchiveName pk @ '': Created package. '' @ showNat n @ '' total bytes''),
           Emit (CreatePackage i)]))
      else (pk, []))"
| "deliver P pk (Entry nm) =
     (if listening pk then (pk, [LogDebug (opArchiveName pk @ '': A '' @ nm)]) else (pk, []))"
| "deliver P pk (Warning e) =
     (if listening pk then
        (pk\<lparr>hadErrors := True, promise := settle (promise pk) (Rejected e)\<rparr>,
         [LogError (Msg (archiveFailureMessage P e))])
      else (pk, []))"
| "deliver P pk (Failure e) =
     (if listening pk then
        (pk\<lparr>hadErrors := True, promise := settle (promise pk) (Rejected e)\<rparr>,
         [LogError (Msg (archiveFailureMessage P e))])
      else (pk, []))"

fun deliverAll :: "Platform \<Rightarrow> PackageOp \<Rightarrow> ArchiveEvent list \<Rightarrow> PackageOp \<times> Action list" where
  "deliverAll P pk [] = (pk, [])"
| "deliverAll P pk (ev # evs) =
     (let (pk1, acts1) = deliver P pk ev;
          (pk2, acts2) = deliverAll P pk1 evs
      in (pk2, acts1 @ acts2))"

text \<open>One call of \<open>createPackage\<close> together with the events its archive then signals.\<close>

definition createPackage :: "Platform \<Rightarrow> ActionInfo \<Rightarrow> ArchiveEvent list \<Rightarrow> PackageOp \<times> Action list" where
  "createPackage P i evs =
     (let (pk0, acts0) = createPackageStart P i;
          (pk1, acts1) = deliverAll P pk0 evs
      in (pk1, acts0 @ acts1))"

section \<open>package.cmd.js: createBundles\<close>

text \<open>\<open>files[key] = value\<close> on an object kept in insertion order.\<close>

fun setProperty :: "(string \<times> string) list \<Rightarrow> string \<Rightarrow> string \<Rightarrow> (string \<times> string) list" where
  "setProperty [] k v = [(k, v)]"
| "setProperty ((k', v') # kvs) k v =
     (if k' = k then (k, v) # kvs else (k', v') # setProperty kvs k v)"

definition bundleFiles :: "Platform \<Rightarrow> string \<Rightarrow> ActionInfo list \<Rightarrow> (string \<times> string) list" where
  "bundleFiles P tgt scripts =
     foldl (\<lambda>fs script. setProperty fs (name script) (path_resolve P [tgt, main script])) [] scripts"

definition orEmpty :: "'a list option \<Rightarrow> 'a list" where
  "orEmpty xs = (case xs of None \<Rightarrow> [] | Some ys \<Rightarrow> ys)"

text \<open>
  \<open>createBundles\<close>: one run of the bundler over all scripts; a throw of the bundler
  rejects; the errors of the returned stats, when present, are handed one by one to
  \<open>log.error\<close> and then its warnings to \<open>log.warn\<close>.  The progress handler only draws.
\<close>

definition createBundles ::
  "Platform \<Rightarrow> Env \<Rightarrow> string \<Rightarrow> bool \<Rightarrow> ActionInfo list \<Rightarrow> Err option \<times> Action list" where
  "createBundles P env tgt minify scripts =
     (let fs = bundleFiles P tgt scripts in
      case bundlerRun env tgt minify fs of
        Inl e \<Rightarrow> (Some e, [BundlerRun fs])
      | Inr stats \<Rightarrow>
          (None, [BundlerRun fs]
                 @ map (\<lambda>d. LogError (Diag d)) (orEmpty (errors stats))
                 @ map (\<lambda>d. LogWarn (Diag d)) (orEmpty (warnings stats))))"

section \<open>package.cmd.js: run\<close>

text \<open>\<open>Promise.all\<close> over results that are already determined: the first rejection, or all values.\<close>

fun collect :: "(Err + 'a) list \<Rightarrow> Err + 'a list" where
  "collect [] = Inr []"
| "collect (Inl e # rs) = Inl e"
| "collect (Inr x # rs) = (case collect rs of Inl e \<Rightarrow> Inl e | Inr xs \<Rightarrow> Inr (x # xs))"

definition loadInfos :: "Env \<Rightarrow> string \<Rightarrow> Err + ActionInfo list" where
  "loadInfos env tgt = collect (map (readJSON env) (globSync env (tgt @ ''/**/*.info.json'')))"

text \<open>A string property is truthy when it is present and not empty.\<close>

definition truthy :: "string option \<Rightarrow> bool" where
  "truthy z = (case z of None \<Rightarrow> False | Some p \<Rightarrow> p \<noteq> [])"

text \<open>
  The callback of the first \<open>map\<close> of the filter: \<open>pathExists\<close> is asked only when
  \<open>zipFile\<close> is truthy, and \<open>zipFile\<close> is deleted unless the path exists.
\<close>

definition checkZip :: "Env \<Rightarrow> ActionInfo \<Rightarrow> ActionInfo \<times> Action list" where
  "checkZip env script =
     (case zipFile script of
        None \<Rightarrow> (script\<lparr>zipFile := None\<rparr>, [])
      | Some p \<Rightarrow>
          if p = [] then (script\<lparr>zipFile := None\<rparr>, [])
          else if pathExists env p then (script, [PathExists p])
          else (script\<lparr>zipFile := None\<rparr>, [PathExists p]))"

text \<open>The body of \<open>if (this._onlyModified)\<close>: the working set and the effects.\<close>

definition filterModified :: "Env \<Rightarrow> ActionInfo list \<Rightarrow> ActionInfo list \<times> Action list" where
  "filterModified env scripts =
     (let checked = map (checkZip env) scripts;
          scripts1 = map fst checked
      in (filter (\<lambda>script. \<not> truthy (zipFile script)) scripts1,
          concat (map snd checked)
          @ map (\<lambda>script. Emit (IgnorePackage script))
              (filter (\<lambda>script. truthy (zipFile script)) scripts1)))"

text \<open>The \<open>forEach\<close> that generates the additional infos.\<close>

definition deriveInfo :: "Platform \<Rightarrow> string \<Rightarrow> ActionInfo \<Rightarrow> ActionInfo" where
  "deriveInfo P tgt script =
     (let nm = path_basename_ext P (main script) ''.js'';
          bn = nm @ ''.bundle.js'';
          dn = (if isStatic script then [] else path_dirname P (main script));
          an = nm @ ''.zip''
      in script\<lparr>name := nm,
                bundleName := bn,
                bundlePath := path_resolve P [tgt, bn],
                dirname := dn,
                archiveName := an,
                zipFile := Some (path_resolve P [tgt, dn, an]),
                infoFile := path_resolve P [tgt, dn, nm @ ''.info.json'']\<rparr>)"

text \<open>Delivery of an event of the archive of the script at index \<open>k\<close>.\<close>

fun deliverAt :: "Platform \<Rightarrow> PackageOp list \<Rightarrow> nat \<times> ArchiveEvent \<Rightarrow> PackageOp list \<times> Action list" where
  "deliverAt P pks (k, ev) =
     (if k < length pks then
        (let (pk, acts) = deliver P (pks ! k) ev in (pks[k := pk], acts))
      else (pks, []))"

fun deliverEach ::
  "Platform \<Rightarrow> PackageOp list \<Rightarrow> (nat \<times> ArchiveEvent) list \<Rightarrow> PackageOp list \<times> Action list" where
  "deliverEach P pks [] = (pks, [])"
| "deliverEach P pks (e # es) =
     (let (pks1, acts1) = deliverAt P pks e;
          (pks2, acts2) = deliverEach P pks1 es
      in (pks2, acts1 @ acts2))"

datatype AllState = AllPending | AllResolved | AllRejected Err

fun firstRejection :: "PackageOp list \<Rightarrow> Err option" where
  "firstRejection [] = None"
| "firstRejection (pk # pks) =
     (case promise pk of Rejected e \<Rightarrow> Some e | _ \<Rightarrow> firstRejection pks)"

definition isResolved :: "PackageOp \<Rightarrow> bool" where
  "isResolved pk = (case promise pk of Resolved _ \<Rightarrow> True | _ \<Rightarrow> False)"

text \<open>The state of \<open>Promise.all\<close> over the promises of the operations.\<close>

definition promiseAll :: "PackageOp list \<Rightarrow> AllState" where
  "promiseAll pks =
     (case firstRejection pks of
        Some e \<Rightarrow> AllRejected e
      | None \<Rightarrow> if list_all isResolved pks then AllResolved else AllPending)"

text \<open>
  \<open>await Promise.all(...)\<close>: events are delivered until the combined promise settles.
  The result is its state, the operations at that moment, the effects of the delivered
  events and the events not yet delivered.  When the events run out before it settles,
  the await never returns.
\<close>

fun awaitAll ::
  "Platform \<Rightarrow> PackageOp list \<Rightarrow> (nat \<times> ArchiveEvent) list
   \<Rightarrow> AllState \<times> PackageOp list \<times> Action list \<times> (nat \<times> ArchiveEvent) list" where
  "awaitAll P pks [] = (promiseAll pks, pks, [], [])"
| "awaitAll P pks (e # es) =
     (if promiseAll pks \<noteq> AllPending then (promiseAll pks, pks, [], e # es)
      else
        (let (pks1, acts1) = deliverAt P pks e;
             (st, pks2, acts2, rest) = awaitAll P pks1 es
         in (st, pks2, acts1 @ acts2, rest)))"

fun firstError :: "Err option list \<Rightarrow> Err option" where
  "firstError [] = None"
| "firstError (None # rs) = firstError rs"
| "firstError (Some e # rs) = Some e"

definition completedMessage :: string where
  "completedMessage = [CHR 0xE2, CHR 0x9C, CHR 0x85] @ ''  packaging completed''"

text \<open>
  The body of \<open>if (scripts.length > 0)\<close>: derive, bundle, archive, write back.  The
  result is the outcome, the effects up to the point where the body returns or throws,
  and the effects of the archive events that are delivered after that point.
\<close>

definition packageScripts ::
  "Platform \<Rightarrow> Env \<Rightarrow> string \<Rightarrow> bool \<Rightarrow> ActionInfo list \<Rightarrow> Outcome \<times> Action list \<times> Action list" where
  "packageScripts P env tgt minify scripts0 =
     (let scripts = map (deriveInfo P tgt) scripts0;
          (thrown, bundling) = createBundles P env tgt minify scripts
      in case thrown of
           Some e \<Rightarrow> (Failed e, bundling, [])
         | None \<Rightarrow>
             (let started = map (createPackageStart P) scripts;
                  (st, pks, delivered, rest) = awaitAll P (map fst started) (archiveEvents env);
                  starting = concat (map snd started);
                  later = snd (deliverEach P pks rest)
              in case st of
                   AllPending \<Rightarrow> (NeverSettles, bundling @ starting @ delivered, later)
                 | AllRejected e \<Rightarrow> (Failed e, bundling @ starting @ delivered, later)
                 | AllResolved \<Rightarrow>
                     (let finals = map info pks;
                          writes = map (\<lambda>script. WriteJson (infoFile script) script) finals
                      in case firstError (map (\<lambda>script. writeJson env (infoFile script) script) finals) of
                           Some e \<Rightarrow> (Failed e, bundling @ starting @ delivered @ writes, later)
                         | None \<Rightarrow> (Completed, bundling @ starting @ delivered @ writes, later))))"

text \<open>The working set of a run and the effects of selecting it.\<close>

definition workingSet :: "Env \<Rightarrow> PackageCommand \<Rightarrow> ActionInfo list \<Rightarrow> ActionInfo list \<times> Action list" where
  "workingSet env cmd scriptInfos =
     (let scripts = flattenDependencies scriptInfos
      in if onlyModified cmd then filterModified env scripts else (scripts, []))"

text \<open>
  \<open>run\<close>: \<open>init\<close> (the inherited one, then the target is resolved against the
  directory), the build command, the descriptors found by \<open>glob\<close> and read, the working
  set, and, when it is not empty, the packaging; then the completion message.  A
  rejection at any \<open>await\<close> is the outcome of the run.  Archive events that arrive after
  \<open>run\<close> has returned or thrown still reach their handlers; their effects end the trace.
\<close>

definition run :: "Platform \<Rightarrow> Env \<Rightarrow> PackageCommand \<Rightarrow> Outcome \<times> Action list" where
  "run P env cmd =
     (case superInit env of
        Some e \<Rightarrow> (Failed e, [])
      | None \<Rightarrow>
          (let tgt = path_resolve P [directory cmd, target cmd] in
           case buildRun env (files cmd) tgt of
             Some e \<Rightarrow> (Failed e, [])
           | None \<Rightarrow>
               (case loadInfos env tgt of
                  Inl e \<Rightarrow> (Failed e, [])
                | Inr scriptInfos \<Rightarrow>
                    (let (scripts, filtering) = workingSet env cmd scriptInfos in
                     if length scripts > 0 then
                       (case packageScripts P env tgt (enableMinify cmd) scripts of
                          (Completed, acts, later) \<Rightarrow>
                            (Completed, filtering @ acts @ [LogInfo completedMessage] @ later)
                        | (out, acts, later) \<Rightarrow> (out, filtering @ acts @ later))
                     else (Completed, filtering @ [LogInfo completedMessage])))))"

section \<open>Reading a trace of effects\<close>

datatype EntrySource = Content string | FromFile string

text \<open>The entries requested for the archive piped to \<open>z\<close>: name and source, in order.\<close>

fun archiveEntry :: "string \<Rightarrow> Action \<Rightarrow> (string \<times> EntrySource) list" where
  "archiveEntry z (ArchiveAppend z' content nm) = (if z' = z then [(nm, Content content)] else [])"
| "archiveEntry z (ArchiveFile z' file nm) = (if z' = z then [(nm, FromFile file)] else [])"
| "archiveEntry z _ = []"

definition archiveEntries :: "string \<Rightarrow> Action list \<Rightarrow> (string \<times> EntrySource) list" where
  "archiveEntries z acts = concat (map (archiveEntry z) acts)"

fun createdPackage :: "Action \<Rightarrow> ActionInfo list" where
  "createdPackage (Emit (CreatePackage d)) = [d]"
| "createdPackage _ = []"

fun ignoredPackage :: "Action \<Rightarrow> ActionInfo list" where
  "ignoredPackage (Emit (IgnorePackage d)) = [d]"
| "ignoredPackage _ = []"

text \<open>The descriptors carried by the \<open>create-package\<close> and \<open>ignore-package\<close> notifications.\<close>

definition createPackageNotifications :: "Action list \<Rightarrow> ActionInfo list" where
  "createPackageNotifications acts = concat (map createdPackage acts)"

definition ignorePackageNotifications :: "Action list \<Rightarrow> ActionInfo list" where
  "ignorePackageNotifications acts = concat (map ignoredPackage acts)"

fun isClose :: "ArchiveEvent \<Rightarrow> bool" where
  "isClose (Close n) = True"
| "isClose _ = False"

fun isProblem :: "ArchiveEvent \<Rightarrow> bool" where
  "isProblem (Warning e) = True"
| "isProblem (Failure e) = True"
| "isProblem _ = False"

fun problemOf :: "ArchiveEvent \<Rightarrow> Err option" where
  "problemOf (Warning e) = Some e"
| "problemOf (Failure e) = Some e"
| "problemOf _ = None"

text \<open>An operation on which a warning or an error was signalled: its promise is rejected.\<close>

definition failedOp :: "PackageOp \<Rightarrow> bool" where
  "failedOp pk = (hadErrors pk \<and> (\<exists>e. promise pk = Rejected e))"

text \<open>A started operation that has seen neither an error nor the close of its stream.\<close>

definition freshOp :: "PackageOp \<Rightarrow> bool" where
  "freshOp pk = (listening pk \<and> \<not> hadErrors pk \<and> promise pk = Pending)"

text \<open>The \<open>zipFile\<close> of a descriptor names a path that exists on disk.\<close>

definition zipOnDisk :: "Env \<Rightarrow> ActionInfo \<Rightarrow> bool" where
  "zipOnDisk env d = (case zipFile d of None \<Rightarrow> False | Some p \<Rightarrow> p \<noteq> [] \<and> pathExists env p)"

fun pathCheck :: "Action \<Rightarrow> string list" where
  "pathCheck (PathExists p) = [p]"
| "pathCheck _ = []"

text \<open>The paths whose existence was asked of the file system, in order.\<close>

definition pathChecks :: "Action list \<Rightarrow> string list" where
  "pathChecks acts = concat (map pathCheck acts)"

text \<open>The truthy \<open>zipFile\<close> paths of a descriptor list, in order.\<close>

definition truthyZipFiles :: "ActionInfo list \<Rightarrow> string list" where
  "truthyZipFiles scripts =
     concat (map (\<lambda>d. case zipFile d of None \<Rightarrow> [] | Some p \<Rightarrow> if p = [] then [] else [p]) scripts)"

fun isBundling :: "Action \<Rightarrow> bool" where
  "isBundling (BundlerRun fs) = True"
| "isBundling (LogError (Diag d)) = True"
| "isBundling (LogWarn (Diag d)) = True"
| "isBundling _ = False"

fun isArchiving :: "Action \<Rightarrow> bool" where
  "isArchiving (CreateWriteStream z) = True"
| "isArchiving (ArchiveAppend z c n) = True"
| "isArchiving (ArchiveFile z f n) = True"
| "isArchiving (ArchiveFinalize z) = True"
| "isArchiving (Emit (CreatePackage d)) = True"
| "isArchiving (LogDebug m) = True"
| "isArchiving (LogError (Msg m)) = True"
| "isArchiving _ = False"

fun isFiltering :: "Action \<Rightarrow> bool" where
  "isFiltering (PathExists p) = True"
| "isFiltering (Emit (IgnorePackage d)) = True"
| "isFiltering _ = False"

fun isWrite :: "Action \<Rightarrow> bool" where
  "isWrite (WriteJson p d) = True"
| "isWrite _ = False"

text \<open>The four components of the result of \<open>awaitAll\<close>, one by one.\<close>

definition awaitState :: "Platform \<Rightarrow> PackageOp list \<Rightarrow> (nat \<times> ArchiveEvent) list \<Rightarrow> AllState" where
  "awaitState P pks es = fst (awaitAll P pks es)"

definition awaitOps :: "Platform \<Rightarrow> PackageOp list \<Rightarrow> (nat \<times> ArchiveEvent) list \<Rightarrow> PackageOp list" where
  "awaitOps P pks es = fst (snd (awaitAll P pks es))"

definition awaitActs :: "Platform \<Rightarrow> PackageOp list \<Rightarrow> (nat \<times> ArchiveEvent) list \<Rightarrow> Action list" where
  "awaitActs P pks es = fst (snd (snd (awaitAll P pks es)))"

definition awaitRest ::
  "Platform \<Rightarrow> PackageOp list \<Rightarrow> (nat \<times> ArchiveEvent) list \<Rightarrow> (nat \<times> ArchiveEvent) list" where
  "awaitRest P pks es = snd (snd (snd (awaitAll P pks es)))"

text \<open>The target directory after \<open>init\<close>.\<close>

definition runTarget :: "Platform \<Rightarrow> PackageCommand \<Rightarrow> string" where
  "runTarget P cmd = path_resolve P [directory cmd, target cmd]"

text \<open>The operations of a working set right after their synchronous start.\<close>

definition startedOps :: "Platform \<Rightarrow> ActionInfo list \<Rightarrow> PackageOp list" where
  "startedOps P scripts = map fst (map (createPackageStart P) scripts)"

definition startActions :: "Platform \<Rightarrow> ActionInfo list \<Rightarrow> Action list" where
  "startActions P scripts = concat (map snd (map (createPackageStart P) scripts))"

definition writeActions :: "PackageOp list \<Rightarrow> Action list" where
  "writeActions pks = map (\<lambda>script. WriteJson (infoFile script) script) (map info pks)"

definition writeResult :: "Env \<Rightarrow> PackageOp list \<Rightarrow> Err option" where
  "writeResult env pks = firstError (map (\<lambda>script. writeJson env (infoFile script) script) (map info pks))"

fun isComplaint :: "Action \<Rightarrow> bool" where
  "isComplaint (LogWarn m) = True"
| "isComplaint (LogError m) = True"
| "isComplaint _ = False"

fun isDiagnosticLog :: "Action \<Rightarrow> bool" where
  "isDiagnosticLog (LogError (Diag d)) = True"
| "isDiagnosticLog (LogWarn (Diag d)) = True"
| "isDiagnosticLog _ = False"

fun openedStream :: "Action \<Rightarrow> string list" where
  "openedStream (CreateWriteStream z) = [z]"
| "openedStream _ = []"

text \<open>The paths of the write streams created, in order: one per archive begun.\<close>

definition streamsOpened :: "Action list \<Rightarrow> string list" where
  "streamsOpened acts = concat (map openedStream acts)"

fun writtenFile :: "Action \<Rightarrow> (string \<times> ActionInfo) list" where
  "writtenFile (WriteJson p d) = [(p, d)]"
| "writtenFile _ = []"

text \<open>The descriptor files written, in order: path and content.\<close>

definition writtenFiles :: "Action list \<Rightarrow> (string \<times> ActionInfo) list" where
  "writtenFiles acts = concat (map writtenFile acts)"

text \<open>What the handlers do: debug logs, the error log and the \<open>create-package\<close> notification.\<close>

fun isEventEffect :: "Action \<Rightarrow> bool" where
  "isEventEffect (LogDebug m) = True"
| "isEventEffect (LogError (Msg m)) = True"
| "isEventEffect (Emit (CreatePackage d)) = True"
| "isEventEffect _ = False"

text \<open>The outcome and the trace of a run whose bundler returned.\<close>

definition settledOutcome :: "Env \<Rightarrow> AllState \<Rightarrow> PackageOp list \<Rightarrow> Outcome" where
  "settledOutcome env st pks =
     (case st of
        AllPending \<Rightarrow> NeverSettles
      | AllRejected e \<Rightarrow> Failed e
      | AllResolved \<Rightarrow> (case writeResult env pks of Some e \<Rightarrow> Failed e | None \<Rightarrow> Completed))"

text \<open>The same environment with a bundler that returns neither errors nor warnings.\<close>

definition withoutDiagnostics :: "Env \<Rightarrow> Env" where
  "withoutDiagnostics env =
     env\<lparr>bundlerRun := (\<lambda>tgt minify fs. Inr \<lparr>errors = None, warnings = None\<rparr>)\<rparr>"

text \<open>The events of the archive of the script at index \<open>k\<close>.\<close>

definition eventsOf :: "nat \<Rightarrow> (nat \<times> ArchiveEvent) list \<Rightarrow> ArchiveEvent list" where
  "eventsOf k es = map snd (filter (\<lambda>e. fst e = k) es)"

text \<open>The first event that is not an entry is the close of the stream.\<close>

fun closesCleanly :: "ArchiveEvent list \<Rightarrow> bool" where
  "closesCleanly [] = False"
| "closesCleanly (Entry nm # es) = closesCleanly es"
| "closesCleanly (Close n # es) = True"
| "closesCleanly (Warning e # es) = False"
| "closesCleanly (Failure e # es) = False"

text \<open>An operation that is resolved, or is fresh with events ahead that close it cleanly.\<close>

definition onTrack :: "PackageOp \<Rightarrow> ArchiveEvent list \<Rightarrow> bool" where
  "onTrack pk es = (isResolved pk \<or> (freshOp pk \<and> closesCleanly es))"

text \<open>A resolved operation has recorded the size of its archive.\<close>

definition sized :: "PackageOp \<Rightarrow> bool" where
  "sized pk = (isResolved pk \<longrightarrow> archiveSize (info pk) \<noteq> None)"

section \<open>The requires graph\<close>

text \<open>
  The graph that the \<open>requires\<close> lists of a descriptor set describe: an edge from a
  path to every path required by a descriptor whose \<open>main\<close> it is, and the paths
  reachable from a list of paths.
\<close>

definition requiresEdges :: "ActionInfo list \<Rightarrow> (string \<times> string) set" where
  "requiresEdges scripts = {(p, q). q \<in> set (directRequires scripts p)}"

definition reachableFrom :: "ActionInfo list \<Rightarrow> string list \<Rightarrow> string set" where
  "reachableFrom scripts ps = {q. \<exists>p \<in> set ps. (p, q) \<in> (requiresEdges scripts)\<^sup>*}"

section \<open>Example data\<close>

definition blankInfo :: ActionInfo where
  "blankInfo = \<lparr>name = [], main = [], isStatic = False, requires = [], dirname = [],
     bundleName = [], bundlePath = [], archiveName = [], zipFile = None, archiveSize = None,
     infoFile = []\<rparr>"

definition cycleA :: ActionInfo where
  "cycleA = blankInfo\<lparr>main := ''a.js'', requires := [''b.js'']\<rparr>"

definition cycleB :: ActionInfo where
  "cycleB = blankInfo\<lparr>main := ''b.js'', requires := [''a.js'', ''c.js'']\<rparr>"

definition leafC :: ActionInfo where
  "leafC = blankInfo\<lparr>main := ''c.js'', requires := [''d.js'', ''d.js'']\<rparr>"

text \<open>
  An instance of the platform functions for running the model on examples: POSIX-style
  path functions for paths without repeated or trailing slashes, resolution against the
  working directory \<open>/\<close>, and no terminal colours.
\<close>

definition lastSegment :: "string \<Rightarrow> string" where
  "lastSegment p = rev (takeWhile (\<lambda>c. c \<noteq> CHR ''/'') (rev p))"

definition dropSuffix :: "string \<Rightarrow> string \<Rightarrow> string" where
  "dropSuffix ext b =
     (if ext \<noteq> [] \<and> length ext < length b \<and> drop (length b - length ext) b = ext
      then take (length b - length ext) b else b)"

definition parentOf :: "string \<Rightarrow> string" where
  "parentOf p =
     (let d = rev (drop 1 (dropWhile (\<lambda>c. c \<noteq> CHR ''/'') (rev p)))
      in if d = [] then (if take 1 p = ''/'' then ''/'' else ''.'') else d)"

fun splitSlash :: "string \<Rightarrow> string \<Rightarrow> string list" where
  "splitSlash [] cur = [rev cur]"
| "splitSlash (c # cs) cur =
     (if c = CHR ''/'' then rev cur # splitSlash cs [] else splitSlash cs (c # cur))"

fun normalizeSegments :: "string list \<Rightarrow> string list \<Rightarrow> string list" where
  "normalizeSegments [] acc = rev acc"
| "normalizeSegments (s # ss) acc =
     (if s = [] \<or> s = ''.'' then normalizeSegments ss acc
      else if s = ''..'' then normalizeSegments ss (tl acc)
      else normalizeSegments ss (s # acc))"

fun fromLastAbsolute :: "string list \<Rightarrow> string list" where
  "fromLastAbsolute [] = []"
| "fromLastAbsolute (a # as) =
     (let r = fromLastAbsolute as
      in if r \<noteq> [] \<and> take 1 (hd r) = ''/'' then r else a # r)"

definition resolveFromRoot :: "string list \<Rightarrow> string" where
  "resolveFromRoot args =
     ''/'' @ joinWith ''/''
        (normalizeSegments (concat (map (\<lambda>a. splitSlash a []) (fromLastAbsolute args))) [])"

definition posixPlatform :: Platform where
  "posixPlatform =
     \<lparr>path_basename = lastSegment,
      path_basename_ext = (\<lambda>p ext. dropSuffix ext (lastSegment p)),
      path_dirname = parentOf,
      path_resolve = resolveFromRoot,
      chalk_redBright = (\<lambda>s. s)\<rparr>"

definition htmlInfo :: ActionInfo where
  "htmlInfo = blankInfo\<lparr>name := ''html'', main := ''html.js'',
     bundleName := ''html.bundle.js'', bundlePath := ''/proj/.hlx/build/html.bundle.js'',
     archiveName := ''html.zip'', zipFile := Some ''/proj/.hlx/build/html.zip'',
     infoFile := ''/proj/.hlx/build/html.info.json''\<rparr>"

definition htmlZipped :: ActionInfo where
  "htmlZipped = blankInfo\<lparr>main := ''html.js'', zipFile := Some ''/proj/.hlx/build/html.zip''\<rparr>"

definition jsonStale :: ActionInfo where
  "jsonStale = blankInfo\<lparr>main := ''json.js'', zipFile := Some ''/proj/.hlx/build/json.zip''\<rparr>"

definition xmlNew :: ActionInfo where
  "xmlNew = blankInfo\<lparr>main := ''xml.js''\<rparr>"

definition incrementalCmd :: PackageCommand where
  "incrementalCmd =
     \<lparr>directory = ''/proj'', target = ''.hlx/build'', files = [''src/*.htl''],
      onlyModified = True, enableMinify = False\<rparr>"

text \<open>
  An environment with three descriptors on disk, of which only \<open>html.zip\<close> exists; the
  bundler returns one warning and every archive closes without a problem.
\<close>

definition warnEnv :: Env where
  "warnEnv =
     \<lparr>superInit = None,
      buildRun = (\<lambda>fs tgt. None),
      globSync = (\<lambda>pat. if pat = ''/proj/.hlx/build/**/*.info.json''
                         then [''/proj/.hlx/build/html.info.json'',
                               ''/proj/.hlx/build/json.info.json'',
                               ''/proj/.hlx/build/xml.info.json'']
                         else []),
      readJSON = (\<lambda>p. if p = ''/proj/.hlx/build/html.info.json'' then Inr htmlZipped
                       else if p = ''/proj/.hlx/build/json.info.json'' then Inr jsonStale
                       else if p = ''/proj/.hlx/build/xml.info.json'' then Inr xmlNew
                       else Inl (Error ''ENOENT'')),
      pathExists = (\<lambda>p. p = ''/proj/.hlx/build/html.zip''),
      bundlerRun = (\<lambda>tgt minify fs. Inr \<lparr>errors = Some [], warnings = Some [''unused export'']\<rparr>),
      archiveEvents = [(0, Entry ''package.json''), (1, Entry ''package.json''),
                       (1, Close 300), (2, Close 77), (0, Close 512)],
      writeJson = (\<lambda>p d. None)\<rparr>"

text \<open>The same environment when nothing is left to package: both archives exist.\<close>

definition upToDateEnv :: Env where
  "upToDateEnv =
     warnEnv\<lparr>globSync := (\<lambda>pat. [''/proj/.hlx/build/html.info.json'',
                                   ''/proj/.hlx/build/json.info.json'']),
             pathExists := (\<lambda>p. True)\<rparr>"

definition fullCmd :: PackageCommand where
  "fullCmd =
     \<lparr>directory = ''/proj'', target = ''.hlx/build'', files = [''src/*.htl''],
      onlyModified = False, enableMinify = False\<rparr>"

section \<open>Properties of RequestContext\<close>

lemma lastIndexOfFrom_snoc:
  "lastIndexOfFrom c (xs @ [y]) i found =
     (if y = c then i + int (length xs) else lastIndexOfFrom c xs i found)"
  by (induction xs arbitrary: i found) auto

lemma lastIndexOfFrom_less:
  "found < i \<Longrightarrow> lastIndexOfFrom c xs i found < i + int (length xs)"
proof (induction xs arbitrary: i found)
  case Nil
  then show ?case by simp
next
  case (Cons x xs)
  have "lastIndexOfFrom c xs (i + 1) (if x = c then i else found) < (i + 1) + int (length xs)"
    by (rule Cons.IH) (use Cons.prems in auto)
  then show ?case by simp
qed

lemma lastIndexOf_ends_with:
  assumes "s \<noteq> []" and "last s = c"
  shows "lastIndexOf s c = int (length s) - 1"
proof -
  obtain xs where s: "s = xs @ [c]"
    using assms by (metis append_butlast_last_id)
  show ?thesis
    unfolding lastIndexOf_def s by (simp add: lastIndexOfFrom_snoc)
qed

lemma lastIndexOf_other_before_end:
  assumes "s \<noteq> []" and "last s \<noteq> d"
  shows "lastIndexOf s d < int (length s) - 1"
proof -
  obtain xs where s: "s = xs @ [last s]"
    using assms(1) by (metis append_butlast_last_id)
  have "lastIndexOfFrom d xs 0 (- 1) < 0 + int (length xs)"
    by (rule lastIndexOfFrom_less) simp
  moreover have "lastIndexOf s d = lastIndexOfFrom d xs 0 (- 1)"
    unfolding lastIndexOf_def by (subst s) (simp add: lastIndexOfFrom_snoc assms(2) del: append_butlast_last_id)
  moreover have "int (length s) - 1 = int (length xs)"
    by (subst s) simp
  ultimately show ?thesis by simp
qed

lemma urlOrRoot_cases:
  assumes "url = None \<or> url = Some [] \<or> (\<exists>u. url = Some u \<and> u \<noteq> [] \<and> last u = CHR ''/'')"
  shows "urlOrRoot url \<noteq> [] \<and> last (urlOrRoot url) = CHR ''/''"
  using assms by (auto simp: urlOrRoot_def)

text \<open>
  Claim C10.  For a request whose url ends with a slash, and for a request with no url
  (or an empty one), where the path defaults to the root \<open>/\<close>, the constructed
  context has \<open>resourcePath\<close> equal to the path followed by \<open>index\<close>, and both
  \<open>extension\<close> and \<open>selector\<close> are the empty string.
\<close>

theorem newRequestContext_trailing_slash:
  assumes "url = None \<or> url = Some [] \<or> (\<exists>u. url = Some u \<and> u \<noteq> [] \<and> last u = CHR ''/'')"
  shows "rc_path (newRequestContext url cfg) = (case url of None \<Rightarrow> ''/'' | Some u \<Rightarrow> if u = [] then ''/'' else u)
       \<and> rc_resourcePath (newRequestContext url cfg) = rc_path (newRequestContext url cfg) @ ''index''
       \<and> rc_extension (newRequestContext url cfg) = []
       \<and> rc_selector (newRequestContext url cfg) = []"
proof -
  let ?p = "urlOrRoot url"
  from urlOrRoot_cases [OF assms] have ne: "?p \<noteq> []" and sl: "last ?p = CHR ''/''" by simp_all
  have slash: "lastIndexOf ?p CHR ''/'' = int (length ?p) - 1"
    by (rule lastIndexOf_ends_with [OF ne sl])
  have dot: "lastIndexOf ?p CHR ''.'' < int (length ?p) - 1"
    by (rule lastIndexOf_other_before_end [OF ne]) (simp add: sl)
  have nd: "\<not> lastIndexOf ?p CHR ''.'' > lastIndexOf ?p CHR ''/''"
    using slash dot by simp
  have "newRequestContext url cfg =
     \<lparr> rc_cfg = cfg, rc_url = url, rc_path = ?p, rc_selector = [], rc_extension = [],
       rc_resourcePath = ?p @ ''index'' \<rparr>"
    unfolding newRequestContext_def Let_def using nd slash by simp
  then show ?thesis by (simp add: urlOrRoot_def)
qed

theorem newRequestContext_trailing_slash_witness:
  "rc_resourcePath (newRequestContext (Some ''/docs/api.v2/'') ()) = ''/docs/api.v2/index''
   \<and> rc_extension (newRequestContext (Some ''/docs/api.v2/'') ()) = []
   \<and> rc_selector (newRequestContext (Some ''/docs/api.v2/'') ()) = []
   \<and> rc_resourcePath (newRequestContext None ()) = ''/index''"
  using newRequestContext_trailing_slash [of "Some ''/docs/api.v2/''" "()"]
        newRequestContext_trailing_slash [of None "()"]
  by simp

section \<open>Properties of flattenDependencies\<close>

lemma resolveRequires_distinct:
  "distinct seen \<Longrightarrow> distinct (resolveRequires scripts todo seen)"
  by (induction scripts todo seen rule: resolveRequires.induct) auto

lemma resolveRequires_contains:
  "set todo \<union> set seen \<subseteq> set (resolveRequires scripts todo seen)"
  by (induction scripts todo seen rule: resolveRequires.induct) auto

lemma resolveRequires_closed:
  "\<forall>p \<in> set seen. set (directRequires scripts p) \<subseteq> set seen \<union> set todo \<Longrightarrow>
   \<forall>p \<in> set (resolveRequires scripts todo seen).
      set (directRequires scripts p) \<subseteq> set (resolveRequires scripts todo seen)"
proof (induction scripts todo seen rule: resolveRequires.induct)
  case (1 scripts seen)
  then show ?case by simp
next
  case (2 scripts p todo seen)
  show ?case
  proof (cases "p \<in> set seen")
    case True
    have "\<forall>q \<in> set seen. set (directRequires scripts q) \<subseteq> set seen \<union> set todo"
    proof
      fix q assume q: "q \<in> set seen"
      then have "set (directRequires scripts q) \<subseteq> set seen \<union> set (p # todo)"
        using "2.prems" by blast
      then show "set (directRequires scripts q) \<subseteq> set seen \<union> set todo"
        using True by auto
    qed
    from "2.IH"(1) [OF True this] show ?thesis using True by simp
  next
    case False
    have "\<forall>q \<in> set (seen @ [p]).
            set (directRequires scripts q) \<subseteq> set (seen @ [p]) \<union> set (directRequires scripts p @ todo)"
    proof
      fix q assume q: "q \<in> set (seen @ [p])"
      show "set (directRequires scripts q) \<subseteq> set (seen @ [p]) \<union> set (directRequires scripts p @ todo)"
      proof (cases "q = p")
        case True
        then show ?thesis by auto
      next
        case False
        then have "q \<in> set seen" using q by simp
        then have "set (directRequires scripts q) \<subseteq> set seen \<union> set (p # todo)"
          using "2.prems" by blast
        then show ?thesis by auto
      qed
    qed
    from "2.IH"(2) [OF False this] show ?thesis using False by simp
  qed
qed

lemma requiresEdges_step:
  assumes "r \<in> set (directRequires scripts p)" and "(r, q) \<in> (requiresEdges scripts)\<^sup>*"
  shows "(p, q) \<in> (requiresEdges scripts)\<^sup>*"
proof -
  have "(p, r) \<in> requiresEdges scripts"
    using assms(1) by (simp add: requiresEdges_def)
  then show ?thesis
    using assms(2) by (rule converse_rtrancl_into_rtrancl)
qed

lemma reachableFrom_I: "p \<in> set ps \<Longrightarrow> (p, q) \<in> (requiresEdges scripts)\<^sup>* \<Longrightarrow> q \<in> reachableFrom scripts ps"
  by (auto simp: reachableFrom_def)

lemma reachableFrom_tail: "reachableFrom scripts todo \<subseteq> reachableFrom scripts (p # todo)"
  by (auto simp: reachableFrom_def)

lemma reachableFrom_expand:
  "reachableFrom scripts (directRequires scripts p @ todo) \<subseteq> reachableFrom scripts (p # todo)"
proof
  fix q assume "q \<in> reachableFrom scripts (directRequires scripts p @ todo)"
  then obtain r where r: "r \<in> set (directRequires scripts p @ todo)"
      and rq: "(r, q) \<in> (requiresEdges scripts)\<^sup>*"
    unfolding reachableFrom_def by blast
  show "q \<in> reachableFrom scripts (p # todo)"
  proof (cases "r \<in> set todo")
    case True
    then show ?thesis using rq by (intro reachableFrom_I [of r]) simp_all
  next
    case False
    then have "r \<in> set (directRequires scripts p)" using r by simp
    then have "(p, q) \<in> (requiresEdges scripts)\<^sup>*" using rq by (rule requiresEdges_step)
    then show ?thesis by (intro reachableFrom_I [of p]) simp_all
  qed
qed

lemma resolveRequires_sound:
  "set (resolveRequires scripts todo seen) \<subseteq> set seen \<union> reachableFrom scripts todo"
proof (induction scripts todo seen rule: resolveRequires.induct)
  case (1 scripts seen)
  then show ?case by simp
next
  case (2 scripts p todo seen)
  show ?case
  proof (cases "p \<in> set seen")
    case True
    have "set (resolveRequires scripts (p # todo) seen) = set (resolveRequires scripts todo seen)"
      using True by simp
    also have "\<dots> \<subseteq> set seen \<union> reachableFrom scripts todo"
      by (rule "2.IH"(1) [OF True])
    also have "\<dots> \<subseteq> set seen \<union> reachableFrom scripts (p # todo)"
      using reachableFrom_tail [of scripts todo p] by blast
    finally show ?thesis .
  next
    case False
    have p: "p \<in> reachableFrom scripts (p # todo)"
      by (intro reachableFrom_I [of p]) simp_all
    have "set (resolveRequires scripts (p # todo) seen)
            = set (resolveRequires scripts (directRequires scripts p @ todo) (seen @ [p]))"
      using False by simp
    also have "\<dots> \<subseteq> set (seen @ [p]) \<union> reachableFrom scripts (directRequires scripts p @ todo)"
      by (rule "2.IH"(2) [OF False])
    also have "\<dots> \<subseteq> set seen \<union> reachableFrom scripts (p # todo)"
      using reachableFrom_expand [of scripts p todo] p by auto
    finally show ?thesis .
  qed
qed

lemma closed_rtrancl:
  assumes closed: "\<forall>p \<in> R. set (directRequires scripts p) \<subseteq> R"
    and "(p, q) \<in> (requiresEdges scripts)\<^sup>*" and "p \<in> R"
  shows "q \<in> R"
  using assms(2,3)
proof (induction rule: rtrancl_induct)
  case base
  then show ?case .
next
  case (step y z)
  then have "y \<in> R" by simp
  moreover have "z \<in> set (directRequires scripts y)"
    using step.hyps(2) by (simp add: requiresEdges_def)
  ultimately show ?case using closed by blast
qed

lemma resolveRequires_exact:
  "set (resolveRequires scripts todo []) = reachableFrom scripts todo"
proof
  show "set (resolveRequires scripts todo []) \<subseteq> reachableFrom scripts todo"
    using resolveRequires_sound [of scripts todo "[]"] by simp
next
  have closed: "\<forall>p \<in> set (resolveRequires scripts todo []).
      set (directRequires scripts p) \<subseteq> set (resolveRequires scripts todo [])"
    by (rule resolveRequires_closed) simp
  have start: "set todo \<subseteq> set (resolveRequires scripts todo [])"
    using resolveRequires_contains [of todo "[]" scripts] by simp
  show "reachableFrom scripts todo \<subseteq> set (resolveRequires scripts todo [])"
  proof
    fix q assume "q \<in> reachableFrom scripts todo"
    then obtain p where "p \<in> set todo" and pq: "(p, q) \<in> (requiresEdges scripts)\<^sup>*"
      unfolding reachableFrom_def by blast
    then have "p \<in> set (resolveRequires scripts todo [])" using start by blast
    with closed pq show "q \<in> set (resolveRequires scripts todo [])"
      by (rule closed_rtrancl)
  qed
qed

lemma requires_flattenOne:
  "set (requires (flattenOne scripts s)) = reachableFrom scripts (requires s) - {main s}"
  by (auto simp: flattenOne_def resolveRequires_exact)

lemma main_flattenOne: "main (flattenOne scripts s) = main s"
  by (simp add: flattenOne_def)

lemma distinct_flattenOne: "distinct (requires (flattenOne scripts s))"
  by (simp add: flattenOne_def resolveRequires_distinct)

lemma requires_edge:
  "B \<in> set scripts \<Longrightarrow> C \<in> set (requires B) \<Longrightarrow> (main B, C) \<in> requiresEdges scripts"
  by (auto simp: requiresEdges_def directRequires_def)

lemma reachableFrom_requires:
  assumes "B \<in> set scripts" and "q \<in> reachableFrom scripts (requires B)"
  shows "(main B, q) \<in> (requiresEdges scripts)\<^sup>*"
proof -
  from assms(2) obtain p where p: "p \<in> set (requires B)" and pq: "(p, q) \<in> (requiresEdges scripts)\<^sup>*"
    unfolding reachableFrom_def by blast
  have "(main B, p) \<in> requiresEdges scripts"
    using assms(1) p by (rule requires_edge)
  then show ?thesis using pq by (rule converse_rtrancl_into_rtrancl)
qed

lemma nth_flattenDependencies:
  "i < length scripts \<Longrightarrow> flattenDependencies scripts ! i = flattenOne scripts (scripts ! i)"
  by (simp add: flattenDependencies_def)

text \<open>
  Claim C1, as amended.  For every descriptor set and every script \<open>A\<close> of it, the
  flattened \<open>requires\<close> of \<open>A\<close> has no duplicates, never contains \<open>A\<close> itself, contains
  every path \<open>A\<close> requires other than \<open>A\<close> itself, and is closed under transitivity up to
  \<open>A\<close> itself: if \<open>A\<close> requires \<open>B\<close> (before or after flattening) and \<open>B\<close> requires
  \<open>C\<close> (before or after flattening) and \<open>C\<close> is not \<open>A\<close>, then the flattened
  \<open>requires\<close> of \<open>A\<close> includes \<open>C\<close>.
\<close>

theorem flattenDependencies_closure:
  fixes scripts :: "ActionInfo list"
  defines "out \<equiv> flattenDependencies scripts"
  assumes i: "i < length scripts"
  shows "length out = length scripts
     \<and> main (out ! i) = main (scripts ! i)
     \<and> distinct (requires (out ! i))
     \<and> main (scripts ! i) \<notin> set (requires (out ! i))
     \<and> (\<forall>B \<in> set (requires (scripts ! i)). B \<noteq> main (scripts ! i) \<longrightarrow> B \<in> set (requires (out ! i)))
     \<and> (\<forall>j < length scripts. \<forall>C \<in> set (requires (scripts ! j)).
           main (scripts ! j) \<in> set (requires (scripts ! i)) \<and> C \<noteq> main (scripts ! i)
           \<longrightarrow> C \<in> set (requires (out ! i)))
     \<and> (\<forall>j < length scripts. \<forall>C \<in> set (requires (out ! j)).
           main (out ! j) \<in> set (requires (out ! i)) \<and> C \<noteq> main (out ! i)
           \<longrightarrow> C \<in> set (requires (out ! i)))"
proof -
  let ?A = "scripts ! i"
  have outi: "out ! i = flattenOne scripts ?A"
    unfolding out_def using i by (rule nth_flattenDependencies)
  have req: "set (requires (out ! i)) = reachableFrom scripts (requires ?A) - {main ?A}"
    unfolding outi by (rule requires_flattenOne)
  have len: "length out = length scripts"
    by (simp add: out_def flattenDependencies_def)
  have mainA: "main (out ! i) = main ?A"
    unfolding outi by (rule main_flattenOne)
  have dist: "distinct (requires (out ! i))"
    unfolding outi by (rule distinct_flattenOne)
  have self: "main ?A \<notin> set (requires (out ! i))"
    unfolding req by simp
  have direct: "\<forall>B \<in> set (requires ?A). B \<noteq> main ?A \<longrightarrow> B \<in> set (requires (out ! i))"
    unfolding req by (auto intro: reachableFrom_I)
  have trans_in: "\<forall>j < length scripts. \<forall>C \<in> set (requires (scripts ! j)).
           main (scripts ! j) \<in> set (requires ?A) \<and> C \<noteq> main ?A
           \<longrightarrow> C \<in> set (requires (out ! i))"
  proof (intro allI impI ballI)
    fix j C
    assume j: "j < length scripts" and C: "C \<in> set (requires (scripts ! j))"
      and h: "main (scripts ! j) \<in> set (requires ?A) \<and> C \<noteq> main ?A"
    have "(main (scripts ! j), C) \<in> requiresEdges scripts"
      using j C by (intro requires_edge) simp_all
    then have "(main (scripts ! j), C) \<in> (requiresEdges scripts)\<^sup>*" by (rule r_into_rtrancl)
    with h have "C \<in> reachableFrom scripts (requires ?A)"
      by (intro reachableFrom_I [of "main (scripts ! j)"]) simp_all
    with h show "C \<in> set (requires (out ! i))" unfolding req by simp
  qed
  have trans_out: "\<forall>j < length scripts. \<forall>C \<in> set (requires (out ! j)).
           main (out ! j) \<in> set (requires (out ! i)) \<and> C \<noteq> main (out ! i)
           \<longrightarrow> C \<in> set (requires (out ! i))"
  proof (intro allI impI ballI)
    fix j C
    assume j: "j < length scripts" and C: "C \<in> set (requires (out ! j))"
      and h: "main (out ! j) \<in> set (requires (out ! i)) \<and> C \<noteq> main (out ! i)"
    have outj: "out ! j = flattenOne scripts (scripts ! j)"
      unfolding out_def using j by (rule nth_flattenDependencies)
    have "C \<in> reachableFrom scripts (requires (scripts ! j))"
      using C unfolding outj requires_flattenOne by simp
    with j have BC: "(main (scripts ! j), C) \<in> (requiresEdges scripts)\<^sup>*"
      by (intro reachableFrom_requires) simp_all
    have "main (scripts ! j) \<in> reachableFrom scripts (requires ?A)"
      using h unfolding req outj main_flattenOne by simp
    then obtain p where p: "p \<in> set (requires ?A)"
        and pB: "(p, main (scripts ! j)) \<in> (requiresEdges scripts)\<^sup>*"
      unfolding reachableFrom_def by blast
    from pB BC have "(p, C) \<in> (requiresEdges scripts)\<^sup>*" by (rule rtrancl_trans)
    with p have "C \<in> reachableFrom scripts (requires ?A)" by (rule reachableFrom_I)
    with h show "C \<in> set (requires (out ! i))" unfolding req mainA by simp
  qed
  from len mainA dist self direct trans_in trans_out show ?thesis by blast
qed

text \<open>
  Claim C1 as stated fails on a cycle: \<open>a.js\<close> requires \<open>b.js\<close> and \<open>b.js\<close> requires
  \<open>a.js\<close>, so closure under transitivity asks for \<open>a.js\<close> in the flattened
  \<open>requires\<close> of \<open>a.js\<close>, which never contains the script itself.
\<close>

theorem flattenDependencies_cycle_counterexample:
  "main cycleB \<in> set (requires cycleA)
   \<and> ''a.js'' \<in> set (requires cycleB)
   \<and> ''a.js'' \<notin> set (requires (flattenDependencies [cycleA, cycleB] ! 0))"
  by (simp add: flattenDependencies_def flattenOne_def directRequires_def cycleA_def cycleB_def blankInfo_def)

theorem flattenDependencies_closure_witness:
  "(0::nat) < length [cycleA, cycleB, leafC]
   \<and> distinct (requires (flattenDependencies [cycleA, cycleB, leafC] ! 0))
   \<and> main cycleA \<notin> set (requires (flattenDependencies [cycleA, cycleB, leafC] ! 0))
   \<and> ''d.js'' \<in> set (requires (flattenDependencies [cycleA, cycleB, leafC] ! 0))"
proof -
  let ?S = "[cycleA, cycleB, leafC]"
  let ?out = "flattenDependencies ?S"
  have h: "(0::nat) < length ?S" by simp
  note T = flattenDependencies_closure [OF h]
  have two: "(2::nat) < length ?S" by simp
  have d: "''d.js'' \<in> set (requires (?out ! 2))"
    by (simp add: flattenDependencies_def flattenOne_def directRequires_def cycleA_def
        cycleB_def leafC_def blankInfo_def)
  have via: "main (?out ! 2) \<in> set (requires (?out ! 0))"
    by (simp add: flattenDependencies_def flattenOne_def directRequires_def cycleA_def
        cycleB_def leafC_def blankInfo_def)
  have other: "''d.js'' \<noteq> main (?out ! 0)"
    by (simp add: flattenDependencies_def flattenOne_def cycleA_def blankInfo_def)
  from T have closed: "\<forall>j < length ?S. \<forall>C \<in> set (requires (?out ! j)).
      main (?out ! j) \<in> set (requires (?out ! 0)) \<and> C \<noteq> main (?out ! 0)
      \<longrightarrow> C \<in> set (requires (?out ! 0))"
    by blast
  from closed two d via other have reached: "''d.js'' \<in> set (requires (?out ! 0))"
    by blast
  from T have dist: "distinct (requires (?out ! 0))" by blast
  from T have self: "main (?S ! 0) \<notin> set (requires (?out ! 0))" by blast
  then have "main cycleA \<notin> set (requires (?out ! 0))" by simp
  with h dist reached show ?thesis by blast
qed

section \<open>Properties of createPackage\<close>

lemma deliverAll_append:
  "deliverAll P pk (xs @ ys) =
     (let (pk1, a1) = deliverAll P pk xs; (pk2, a2) = deliverAll P pk1 ys in (pk2, a1 @ a2))"
  by (induction xs arbitrary: pk) (auto simp: Let_def split: prod.splits)

lemma fst_deliverAll_append:
  "fst (deliverAll P pk (xs @ ys)) = fst (deliverAll P (fst (deliverAll P pk xs)) ys)"
  by (simp add: deliverAll_append Let_def split: prod.splits)

lemma snd_deliverAll_append:
  "snd (deliverAll P pk (xs @ ys))
     = snd (deliverAll P pk xs) @ snd (deliverAll P (fst (deliverAll P pk xs)) ys)"
  by (simp add: deliverAll_append Let_def split: prod.splits)

lemma fst_deliverAll_Cons:
  "fst (deliverAll P pk (e # es)) = fst (deliverAll P (fst (deliver P pk e)) es)"
  by (simp add: Let_def split: prod.splits)

lemma snd_deliverAll_Cons:
  "snd (deliverAll P pk (e # es)) = snd (deliver P pk e) @ snd (deliverAll P (fst (deliver P pk e)) es)"
  by (simp add: Let_def split: prod.splits)

lemma createPackageNotifications_append:
  "createPackageNotifications (xs @ ys) = createPackageNotifications xs @ createPackageNotifications ys"
  by (simp add: createPackageNotifications_def)

lemma archiveEntries_append:
  "archiveEntries z (xs @ ys) = archiveEntries z xs @ archiveEntries z ys"
  by (simp add: archiveEntries_def)

lemma deliver_failed:
  assumes "failedOp pk"
  shows "failedOp (fst (deliver P pk ev)) \<and> info (fst (deliver P pk ev)) = info pk
       \<and> promise (fst (deliver P pk ev)) = promise pk
       \<and> createPackageNotifications (snd (deliver P pk ev)) = []"
  using assms by (cases ev) (auto simp: failedOp_def settle_def createPackageNotifications_def)

lemma deliverAll_failed:
  assumes "failedOp pk"
  shows "failedOp (fst (deliverAll P pk evs)) \<and> info (fst (deliverAll P pk evs)) = info pk
       \<and> promise (fst (deliverAll P pk evs)) = promise pk
       \<and> createPackageNotifications (snd (deliverAll P pk evs)) = []"
  using assms
proof (induction evs arbitrary: pk)
  case Nil
  then show ?case by (simp add: createPackageNotifications_def)
next
  case (Cons e es)
  from deliver_failed [OF Cons.prems, of P e]
  have f: "failedOp (fst (deliver P pk e))" and i: "info (fst (deliver P pk e)) = info pk"
    and p: "promise (fst (deliver P pk e)) = promise pk"
    and n: "createPackageNotifications (snd (deliver P pk e)) = []"
    by simp_all
  from Cons.IH [OF f] i p n show ?case
    by (simp add: fst_deliverAll_Cons snd_deliverAll_Cons createPackageNotifications_append
        del: deliverAll.simps)
qed

lemma deliver_no_close:
  assumes "freshOp pk \<or> failedOp pk" and "\<not> isClose ev" and "listening pk"
  shows "(freshOp (fst (deliver P pk ev)) \<or> failedOp (fst (deliver P pk ev)))
       \<and> listening (fst (deliver P pk ev))
       \<and> info (fst (deliver P pk ev)) = info pk
       \<and> createPackageNotifications (snd (deliver P pk ev)) = []"
  using assms
  by (cases ev) (auto simp: freshOp_def failedOp_def settle_def createPackageNotifications_def)

lemma deliverAll_no_close:
  assumes "freshOp pk \<or> failedOp pk" and "\<forall>e \<in> set evs. \<not> isClose e" and "listening pk"
  shows "(freshOp (fst (deliverAll P pk evs)) \<or> failedOp (fst (deliverAll P pk evs)))
       \<and> listening (fst (deliverAll P pk evs))
       \<and> info (fst (deliverAll P pk evs)) = info pk
       \<and> createPackageNotifications (snd (deliverAll P pk evs)) = []"
  using assms
proof (induction evs arbitrary: pk)
  case Nil
  then show ?case by (simp add: createPackageNotifications_def)
next
  case (Cons e es)
  have nc: "\<not> isClose e" using Cons.prems(2) by simp
  from deliver_no_close [OF Cons.prems(1) nc Cons.prems(3), of P]
  have s: "freshOp (fst (deliver P pk e)) \<or> failedOp (fst (deliver P pk e))"
    and l: "listening (fst (deliver P pk e))"
    and i: "info (fst (deliver P pk e)) = info pk"
    and n: "createPackageNotifications (snd (deliver P pk e)) = []"
    by simp_all
  have rest: "\<forall>e \<in> set es. \<not> isClose e" using Cons.prems(2) by simp
  from Cons.IH [OF s rest l] i n show ?case
    by (simp add: fst_deliverAll_Cons snd_deliverAll_Cons createPackageNotifications_append
        del: deliverAll.simps)
qed

lemma deliver_problem:
  assumes "freshOp pk \<or> failedOp pk" and "problemOf ev = Some err" and "listening pk"
  shows "failedOp (fst (deliver P pk ev))
       \<and> info (fst (deliver P pk ev)) = info pk
       \<and> createPackageNotifications (snd (deliver P pk ev)) = []
       \<and> snd (deliver P pk ev) = [LogError (Msg (archiveFailureMessage P err))]"
  using assms
  by (cases ev) (auto simp: freshOp_def failedOp_def settle_def createPackageNotifications_def)

lemma createPackageStart_Some:
  assumes "zipFile i = Some z"
  shows "freshOp (fst (createPackageStart P i))"
    and "info (fst (createPackageStart P i)) = i"
    and "listening (fst (createPackageStart P i))"
    and "snd (createPackageStart P i) =
            [CreateWriteStream z,
             LogDebug (''preparing package '' @ path_basename P z),
             ArchiveAppend z (stringifyIndented (packageJson P i)) ''package.json'',
             ArchiveFile z (bundlePath i) (path_basename P (main i)),
             ArchiveFinalize z]"
  using assms by (simp_all add: createPackageStart_def freshOp_def Let_def)

lemma createPackage_split:
  "fst (createPackage P i evs) = fst (deliverAll P (fst (createPackageStart P i)) evs)"
  "snd (createPackage P i evs)
     = snd (createPackageStart P i) @ snd (deliverAll P (fst (createPackageStart P i)) evs)"
  by (simp_all add: createPackage_def Let_def split: prod.splits)

lemma deliver_hadErrors:
  assumes "hadErrors pk"
  shows "hadErrors (fst (deliver P pk ev)) \<and> info (fst (deliver P pk ev)) = info pk
       \<and> createPackageNotifications (snd (deliver P pk ev)) = []"
  using assms by (cases ev) (auto simp: createPackageNotifications_def)

lemma deliverAll_hadErrors:
  assumes "hadErrors pk"
  shows "hadErrors (fst (deliverAll P pk evs)) \<and> info (fst (deliverAll P pk evs)) = info pk
       \<and> createPackageNotifications (snd (deliverAll P pk evs)) = []"
  using assms
proof (induction evs arbitrary: pk)
  case Nil
  then show ?case by (simp add: createPackageNotifications_def)
next
  case (Cons e es)
  from deliver_hadErrors [OF Cons.prems, of P e]
  have h: "hadErrors (fst (deliver P pk e))" and i: "info (fst (deliver P pk e)) = info pk"
    and n: "createPackageNotifications (snd (deliver P pk e)) = []"
    by simp_all
  from Cons.IH [OF h] i n show ?case
    by (simp add: fst_deliverAll_Cons snd_deliverAll_Cons createPackageNotifications_append
        del: deliverAll.simps)
qed

lemma deliver_listening: "listening (fst (deliver P pk ev)) = listening pk"
  by (cases ev) (simp_all add: Let_def)

lemma deliverAll_listening: "listening (fst (deliverAll P pk evs)) = listening pk"
proof (induction evs arbitrary: pk)
  case Nil
  show ?case by simp
next
  case (Cons e es)
  show ?case
    unfolding fst_deliverAll_Cons Cons.IH by (rule deliver_listening)
qed

lemma deliver_problem_any:
  assumes "listening pk" and "problemOf ev = Some err"
  shows "hadErrors (fst (deliver P pk ev)) \<and> info (fst (deliver P pk ev)) = info pk
       \<and> snd (deliver P pk ev) = [LogError (Msg (archiveFailureMessage P err))]"
  using assms by (cases ev) auto

text \<open>
  Claim C2.  When the archive of a script signals a warning or an error, the diagnostic is
  logged as an error, and from then on the descriptor is not changed and no
  \<open>create-package\<close> notification is emitted, whatever the archive signals afterwards.
  When the signal comes while the operation is running, that is before its write stream
  has closed, the promise of \<open>createPackage\<close> is rejected, the descriptor is the one
  passed in (\<open>archiveSize\<close> is not set) and no \<open>create-package\<close> notification is
  emitted at all.
\<close>

theorem createPackage_rejects:
  assumes zip: "zipFile i = Some z"
    and evs: "evs = pre @ ev # post"
    and ev: "problemOf ev = Some err"
  shows "LogError (Msg (archiveFailureMessage P err)) \<in> set (snd (createPackage P i evs))
       \<and> info (fst (createPackage P i evs)) = info (fst (createPackage P i pre))
       \<and> createPackageNotifications (snd (createPackage P i evs))
           = createPackageNotifications (snd (createPackage P i pre))
       \<and> ((\<forall>e \<in> set pre. \<not> isClose e) \<longrightarrow>
             (\<exists>e. promise (fst (createPackage P i evs)) = Rejected e)
             \<and> info (fst (createPackage P i evs)) = i
             \<and> archiveSize (info (fst (createPackage P i evs))) = archiveSize i
             \<and> createPackageNotifications (snd (createPackage P i evs)) = [])"
proof -
  let ?pk0 = "fst (createPackageStart P i)"
  let ?pk1 = "fst (deliverAll P ?pk0 pre)"
  let ?pk2 = "fst (deliver P ?pk1 ev)"
  let ?pk3 = "fst (deliverAll P ?pk2 post)"
  let ?msg = "LogError (Msg (archiveFailureMessage P err))"
  note start = createPackageStart_Some [OF zip, of P]
  have l1: "listening ?pk1"
    using start(3) by (simp add: deliverAll_listening)
  from deliver_problem_any [OF l1 ev, of P]
  have h2: "hadErrors ?pk2" and i2: "info ?pk2 = info ?pk1" and a2: "snd (deliver P ?pk1 ev) = [?msg]"
    by blast+
  from deliverAll_hadErrors [OF h2, of P post]
  have i3: "info ?pk3 = info ?pk2"
    and n3: "createPackageNotifications (snd (deliverAll P ?pk2 post)) = []"
    by blast+
  have final: "fst (createPackage P i evs) = ?pk3"
    unfolding createPackage_split evs fst_deliverAll_append fst_deliverAll_Cons ..
  have before: "fst (createPackage P i pre) = ?pk1"
    unfolding createPackage_split ..
  have acts: "snd (createPackage P i evs)
      = snd (createPackage P i pre) @ snd (deliver P ?pk1 ev) @ snd (deliverAll P ?pk2 post)"
    unfolding createPackage_split evs snd_deliverAll_append snd_deliverAll_Cons by simp
  have logged: "?msg \<in> set (snd (createPackage P i evs))"
    unfolding acts a2 by simp
  have same: "info (fst (createPackage P i evs)) = info (fst (createPackage P i pre))"
    unfolding final before using i3 i2 by simp
  have n2: "createPackageNotifications [?msg] = []"
    by (simp add: createPackageNotifications_def)
  have emitted: "createPackageNotifications (snd (createPackage P i evs))
      = createPackageNotifications (snd (createPackage P i pre))"
    unfolding acts createPackageNotifications_append a2 n2 n3 by simp
  have ordered: "(\<exists>e. promise (fst (createPackage P i evs)) = Rejected e)
      \<and> info (fst (createPackage P i evs)) = i
      \<and> archiveSize (info (fst (createPackage P i evs))) = archiveSize i
      \<and> createPackageNotifications (snd (createPackage P i evs)) = []"
    if pre: "\<forall>e \<in> set pre. \<not> isClose e"
  proof -
    have s0: "freshOp ?pk0 \<or> failedOp ?pk0" using start(1) by simp
    from deliverAll_no_close [OF s0 pre start(3)]
    have s1: "freshOp ?pk1 \<or> failedOp ?pk1"
      and i1': "info ?pk1 = info ?pk0"
      and n1: "createPackageNotifications (snd (deliverAll P ?pk0 pre)) = []"
      by blast+
    have i1: "info ?pk1 = i" using i1' start(2) by simp
    from deliver_problem [OF s1 ev l1, of P]
    have f2: "failedOp ?pk2" by blast
    from deliverAll_failed [OF f2, of P post]
    have f3: "failedOp ?pk3" by blast
    have rej: "\<exists>e. promise (fst (createPackage P i evs)) = Rejected e"
      using f3 unfolding final failedOp_def by simp
    have unchanged: "info (fst (createPackage P i evs)) = i"
      unfolding same before by (rule i1)
    have "createPackageNotifications (snd (createPackage P i pre)) = []"
      unfolding createPackage_split createPackageNotifications_append n1 start(4)
      by (simp add: createPackageNotifications_def)
    then have none: "createPackageNotifications (snd (createPackage P i evs)) = []"
      unfolding emitted .
    from rej unchanged none show ?thesis by simp
  qed
  from logged same emitted ordered show ?thesis by blast
qed

lemma deliver_entries:
  assumes "freshOp pk" and "\<not> isProblem ev \<and> \<not> isClose ev"
  shows "freshOp (fst (deliver P pk ev)) \<and> info (fst (deliver P pk ev)) = info pk
       \<and> createPackageNotifications (snd (deliver P pk ev)) = []
       \<and> archiveEntries z (snd (deliver P pk ev)) = []"
  using assms
  by (cases ev) (auto simp: freshOp_def createPackageNotifications_def archiveEntries_def)

lemma deliverAll_entries:
  assumes "freshOp pk" and "\<forall>e \<in> set evs. \<not> isProblem e \<and> \<not> isClose e"
  shows "freshOp (fst (deliverAll P pk evs)) \<and> info (fst (deliverAll P pk evs)) = info pk
       \<and> createPackageNotifications (snd (deliverAll P pk evs)) = []"
  using assms
proof (induction evs arbitrary: pk)
  case Nil
  then show ?case by (simp add: createPackageNotifications_def)
next
  case (Cons e es)
  have e: "\<not> isProblem e \<and> \<not> isClose e" using Cons.prems(2) by simp
  from deliver_entries [OF Cons.prems(1) e, of P]
  have s: "freshOp (fst (deliver P pk e))" and i: "info (fst (deliver P pk e)) = info pk"
    and n: "createPackageNotifications (snd (deliver P pk e)) = []"
    by simp_all
  have rest: "\<forall>e \<in> set es. \<not> isProblem e \<and> \<not> isClose e" using Cons.prems(2) by simp
  from Cons.IH [OF s rest] i n show ?case
    by (simp add: fst_deliverAll_Cons snd_deliverAll_Cons createPackageNotifications_append
        del: deliverAll.simps)
qed

text \<open>No event requests an archive entry: the entries are those of the synchronous part.\<close>

lemma deliver_no_entries: "archiveEntries z (snd (deliver P pk ev)) = []"
  by (cases ev) (simp_all add: archiveEntries_def Let_def)

lemma deliverAll_no_entries: "archiveEntries z (snd (deliverAll P pk evs)) = []"
proof (induction evs arbitrary: pk)
  case Nil
  then show ?case by (simp add: archiveEntries_def)
next
  case (Cons e es)
  show ?case
    unfolding snd_deliverAll_Cons archiveEntries_append deliver_no_entries Cons.IH by simp
qed

lemma deliver_close_fresh:
  assumes "freshOp pk"
  shows "promise (fst (deliver P pk (Close n))) = Resolved ((info pk)\<lparr>archiveSize := Some n\<rparr>)
       \<and> info (fst (deliver P pk (Close n))) = (info pk)\<lparr>archiveSize := Some n\<rparr>
       \<and> listening (fst (deliver P pk (Close n)))
       \<and> createPackageNotifications (snd (deliver P pk (Close n)))
           = [(info pk)\<lparr>archiveSize := Some n\<rparr>]"
  using assms by (simp add: freshOp_def settle_def Let_def createPackageNotifications_def)

lemma deliver_settled:
  assumes "promise pk \<noteq> Pending" and "\<not> isClose ev"
  shows "promise (fst (deliver P pk ev)) = promise pk \<and> info (fst (deliver P pk ev)) = info pk
       \<and> createPackageNotifications (snd (deliver P pk ev)) = []"
  using assms by (cases ev) (auto simp: settle_def createPackageNotifications_def)

lemma deliverAll_settled:
  assumes "promise pk \<noteq> Pending" and "\<forall>e \<in> set evs. \<not> isClose e"
  shows "promise (fst (deliverAll P pk evs)) = promise pk
       \<and> info (fst (deliverAll P pk evs)) = info pk
       \<and> createPackageNotifications (snd (deliverAll P pk evs)) = []"
  using assms
proof (induction evs arbitrary: pk)
  case Nil
  then show ?case by (simp add: createPackageNotifications_def)
next
  case (Cons e es)
  have e: "\<not> isClose e" using Cons.prems(2) by simp
  from deliver_settled [OF Cons.prems(1) e, of P]
  have p: "promise (fst (deliver P pk e)) = promise pk"
    and i: "info (fst (deliver P pk e)) = info pk"
    and n: "createPackageNotifications (snd (deliver P pk e)) = []"
    by simp_all
  have p': "promise (fst (deliver P pk e)) \<noteq> Pending" using p Cons.prems(1) by simp
  have rest: "\<forall>e \<in> set es. \<not> isClose e" using Cons.prems(2) by simp
  from Cons.IH [OF p' rest] p i n show ?case
    by (simp add: fst_deliverAll_Cons snd_deliverAll_Cons createPackageNotifications_append
        del: deliverAll.simps)
qed

lemma manifest_text:
  "stringifyIndented (packageJson P i) =
     ''{'' @ [CHR 0x0A]
     @ ''  '' @ jsonQuote ''name'' @ '': '' @ jsonQuote (name i) @ '','' @ [CHR 0x0A]
     @ ''  '' @ jsonQuote ''version'' @ '': '' @ jsonQuote ''1.0'' @ '','' @ [CHR 0x0A]
     @ ''  '' @ jsonQuote ''description'' @ '': '' @ jsonQuote (''Lambda function of '' @ name i)
       @ '','' @ [CHR 0x0A]
     @ ''  '' @ jsonQuote ''main'' @ '': '' @ jsonQuote (path_basename P (main i)) @ '','' @ [CHR 0x0A]
     @ ''  '' @ jsonQuote ''license'' @ '': '' @ jsonQuote ''Apache-2.0'' @ [CHR 0x0A]
     @ ''}''"
  by (simp add: stringifyIndented_def packageJson_def)

text \<open>
  Claim C3.  When the write stream closes with no warning or error signalled before (and
  it closes once), exactly two entries were requested for the archive: \<open>package.json\<close>,
  the manifest serialized with two-space indentation, with \<open>main\<close> the basename of the
  entry script, version \<open>1.0\<close> and license \<open>Apache-2.0\<close>; and the bundle file under the
  basename of the entry script.  The descriptor's \<open>archiveSize\<close> is the byte count read
  at the close, exactly one \<open>create-package\<close> notification is emitted, carrying that
  descriptor, and the promise resolves to it.
\<close>

theorem createPackage_success:
  assumes zip: "zipFile i = Some z"
    and evs: "evs = pre @ Close n # post"
    and pre: "\<forall>e \<in> set pre. \<not> isProblem e \<and> \<not> isClose e"
    and post: "\<forall>e \<in> set post. \<not> isClose e"
  shows "archiveEntries z (snd (createPackage P i evs)) =
           [(''package.json'', Content (
               ''{'' @ [CHR 0x0A]
               @ ''  '' @ jsonQuote ''name'' @ '': '' @ jsonQuote (name i) @ '','' @ [CHR 0x0A]
               @ ''  '' @ jsonQuote ''version'' @ '': '' @ jsonQuote ''1.0'' @ '','' @ [CHR 0x0A]
               @ ''  '' @ jsonQuote ''description'' @ '': ''
                 @ jsonQuote (''Lambda function of '' @ name i) @ '','' @ [CHR 0x0A]
               @ ''  '' @ jsonQuote ''main'' @ '': '' @ jsonQuote (path_basename P (main i))
                 @ '','' @ [CHR 0x0A]
               @ ''  '' @ jsonQuote ''license'' @ '': '' @ jsonQuote ''Apache-2.0'' @ [CHR 0x0A]
               @ ''}'')),
            (path_basename P (main i), FromFile (bundlePath i))]
       \<and> info (fst (createPackage P i evs)) = i\<lparr>archiveSize := Some n\<rparr>
       \<and> createPackageNotifications (snd (createPackage P i evs)) = [i\<lparr>archiveSize := Some n\<rparr>]
       \<and> promise (fst (createPackage P i evs)) = Resolved (i\<lparr>archiveSize := Some n\<rparr>)"
proof -
  let ?pk0 = "fst (createPackageStart P i)"
  let ?pk1 = "fst (deliverAll P ?pk0 pre)"
  let ?pk2 = "fst (deliver P ?pk1 (Close n))"
  let ?pk3 = "fst (deliverAll P ?pk2 post)"
  let ?i = "i\<lparr>archiveSize := Some n\<rparr>"
  note start = createPackageStart_Some [OF zip, of P]
  from deliverAll_entries [OF start(1) pre]
  have s1: "freshOp ?pk1" and i1': "info ?pk1 = info ?pk0"
    and n1: "createPackageNotifications (snd (deliverAll P ?pk0 pre)) = []"
    by blast+
  have i1: "info ?pk1 = i" using i1' start(2) by simp
  from deliver_close_fresh [OF s1, of P n]
  have p2: "promise ?pk2 = Resolved ?i" and i2: "info ?pk2 = ?i"
    and n2: "createPackageNotifications (snd (deliver P ?pk1 (Close n))) = [?i]"
    unfolding i1 by blast+
  have p2': "promise ?pk2 \<noteq> Pending" using p2 by simp
  from deliverAll_settled [OF p2' post]
  have p3': "promise ?pk3 = promise ?pk2" and i3': "info ?pk3 = info ?pk2"
    and n3: "createPackageNotifications (snd (deliverAll P ?pk2 post)) = []"
    by blast+
  have p3: "promise ?pk3 = Resolved ?i" using p3' p2 by simp
  have i3: "info ?pk3 = ?i" using i3' i2 by simp
  have final: "fst (createPackage P i evs) = ?pk3"
    unfolding createPackage_split evs fst_deliverAll_append fst_deliverAll_Cons ..
  have acts: "snd (createPackage P i evs)
      = snd (createPackageStart P i) @ snd (deliverAll P ?pk0 evs)"
    unfolding createPackage_split ..
  have acts': "snd (createPackage P i evs)
      = snd (createPackageStart P i) @ snd (deliverAll P ?pk0 pre)
        @ snd (deliver P ?pk1 (Close n)) @ snd (deliverAll P ?pk2 post)"
    unfolding createPackage_split evs snd_deliverAll_append snd_deliverAll_Cons ..
  have entries: "archiveEntries z (snd (createPackage P i evs)) =
      [(''package.json'', Content (stringifyIndented (packageJson P i))),
       (path_basename P (main i), FromFile (bundlePath i))]"
    unfolding acts archiveEntries_append deliverAll_no_entries start(4)
    by (simp add: archiveEntries_def)
  have emitted: "createPackageNotifications (snd (createPackage P i evs)) = [?i]"
    unfolding acts' createPackageNotifications_append n1 n2 n3
    by (simp add: start(4) createPackageNotifications_def)
  have entries': "archiveEntries z (snd (createPackage P i evs)) =
      [(''package.json'', Content (
               ''{'' @ [CHR 0x0A]
               @ ''  '' @ jsonQuote ''name'' @ '': '' @ jsonQuote (name i) @ '','' @ [CHR 0x0A]
               @ ''  '' @ jsonQuote ''version'' @ '': '' @ jsonQuote ''1.0'' @ '','' @ [CHR 0x0A]
               @ ''  '' @ jsonQuote ''description'' @ '': ''
                 @ jsonQuote (''Lambda function of '' @ name i) @ '','' @ [CHR 0x0A]
               @ ''  '' @ jsonQuote ''main'' @ '': '' @ jsonQuote (path_basename P (main i))
                 @ '','' @ [CHR 0x0A]
               @ ''  '' @ jsonQuote ''license'' @ '': '' @ jsonQuote ''Apache-2.0'' @ [CHR 0x0A]
               @ ''}'')),
       (path_basename P (main i), FromFile (bundlePath i))]"
    unfolding entries manifest_text ..
  have info': "info (fst (createPackage P i evs)) = ?i"
    unfolding final by (rule i3)
  have promise': "promise (fst (createPackage P i evs)) = Resolved ?i"
    unfolding final by (rule p3)
  show ?thesis
    by (intro conjI entries' info' emitted promise')
qed

theorem createPackage_rejects_witness:
  "zipFile htmlInfo = Some ''/proj/.hlx/build/html.zip''
   \<and> problemOf (Warning (Error ''ENOENT'')) = Some (Error ''ENOENT'')
   \<and> promise (fst (createPackage posixPlatform htmlInfo
         [Entry ''package.json'', Warning (Error ''ENOENT''), Close 120]))
       = Rejected (Error ''ENOENT'')
   \<and> LogError (Msg (archiveFailureMessage posixPlatform (Error ''ENOENT'')))
       \<in> set (snd (createPackage posixPlatform htmlInfo
         [Entry ''package.json'', Warning (Error ''ENOENT''), Close 120]))
   \<and> archiveSize (info (fst (createPackage posixPlatform htmlInfo
         [Entry ''package.json'', Warning (Error ''ENOENT''), Close 120]))) = None
   \<and> createPackageNotifications (snd (createPackage posixPlatform htmlInfo
         [Entry ''package.json'', Warning (Error ''ENOENT''), Close 120])) = []"
proof -
  let ?evs = "[Entry ''package.json'', Warning (Error ''ENOENT''), Close 120]"
  have zip: "zipFile htmlInfo = Some ''/proj/.hlx/build/html.zip''"
    by (simp add: htmlInfo_def blankInfo_def)
  have evs: "?evs = [Entry ''package.json''] @ Warning (Error ''ENOENT'') # [Close 120]"
    by simp
  have pre: "\<forall>e \<in> set [Entry ''package.json'']. \<not> isClose e" by simp
  have ev: "problemOf (Warning (Error ''ENOENT'')) = Some (Error ''ENOENT'')" by simp
  note T = createPackage_rejects [OF zip evs ev, of posixPlatform]
  from T have logged: "LogError (Msg (archiveFailureMessage posixPlatform (Error ''ENOENT'')))
      \<in> set (snd (createPackage posixPlatform htmlInfo ?evs))"
    by blast
  from T pre have size: "archiveSize (info (fst (createPackage posixPlatform htmlInfo ?evs)))
      = archiveSize htmlInfo"
    by blast
  from T pre have none: "createPackageNotifications (snd (createPackage posixPlatform htmlInfo ?evs)) = []"
    by blast
  have which: "promise (fst (createPackage posixPlatform htmlInfo ?evs)) = Rejected (Error ''ENOENT'')"
    by (simp add: createPackage_def createPackageStart_def htmlInfo_def blankInfo_def
        settle_def Let_def)
  have unset: "archiveSize htmlInfo = None"
    by (simp add: htmlInfo_def blankInfo_def)
  from zip ev which logged size none unset show ?thesis by simp
qed

theorem createPackage_success_witness:
  "zipFile htmlInfo = Some ''/proj/.hlx/build/html.zip''
   \<and> map fst (archiveEntries ''/proj/.hlx/build/html.zip''
         (snd (createPackage posixPlatform htmlInfo
            [Entry ''package.json'', Entry ''html.js'', Close 1234])))
       = [''package.json'', ''html.js'']
   \<and> archiveSize (info (fst (createPackage posixPlatform htmlInfo
         [Entry ''package.json'', Entry ''html.js'', Close 1234]))) = Some 1234
   \<and> createPackageNotifications (snd (createPackage posixPlatform htmlInfo
         [Entry ''package.json'', Entry ''html.js'', Close 1234]))
       = [htmlInfo\<lparr>archiveSize := Some 1234\<rparr>]"
proof -
  let ?evs = "[Entry ''package.json'', Entry ''html.js'', Close 1234]"
  have zip: "zipFile htmlInfo = Some ''/proj/.hlx/build/html.zip''"
    by (simp add: htmlInfo_def blankInfo_def)
  have evs: "?evs = [Entry ''package.json'', Entry ''html.js''] @ Close 1234 # []"
    by simp
  have pre: "\<forall>e \<in> set [Entry ''package.json'', Entry ''html.js'']. \<not> isProblem e \<and> \<not> isClose e"
    by simp
  have post: "\<forall>e \<in> set []. \<not> isClose e" by simp
  note T = createPackage_success [OF zip evs pre post, of posixPlatform]
  have base: "path_basename posixPlatform (main htmlInfo) = ''html.js''"
    by (simp add: posixPlatform_def htmlInfo_def blankInfo_def lastSegment_def)
  from T have names: "map fst (archiveEntries ''/proj/.hlx/build/html.zip''
      (snd (createPackage posixPlatform htmlInfo ?evs))) = [''package.json'', ''html.js'']"
    unfolding base by simp
  from T have size: "info (fst (createPackage posixPlatform htmlInfo ?evs))
      = htmlInfo\<lparr>archiveSize := Some 1234\<rparr>"
    by blast
  from T have emitted: "createPackageNotifications (snd (createPackage posixPlatform htmlInfo ?evs))
      = [htmlInfo\<lparr>archiveSize := Some 1234\<rparr>]"
    by blast
  from zip names size emitted show ?thesis by simp
qed

section \<open>Properties of the incremental filter\<close>

lemma fst_checkZip:
  "fst (checkZip env d) = (if zipOnDisk env d then d else d\<lparr>zipFile := None\<rparr>)"
  by (simp add: checkZip_def zipOnDisk_def split: option.splits)

lemma snd_checkZip:
  "snd (checkZip env d) = (case zipFile d of None \<Rightarrow> [] | Some p \<Rightarrow> if p = [] then [] else [PathExists p])"
  by (simp add: checkZip_def split: option.splits)

lemma truthy_checkZip: "truthy (zipFile (fst (checkZip env d))) = zipOnDisk env d"
  by (simp add: checkZip_def zipOnDisk_def truthy_def split: option.splits)

lemma working_filterModified:
  "fst (filterModified env scripts)
     = map (\<lambda>d. d\<lparr>zipFile := None\<rparr>) (filter (\<lambda>d. \<not> zipOnDisk env d) scripts)"
proof -
  have "filter (\<lambda>s. \<not> truthy (zipFile s)) (map (\<lambda>d. fst (checkZip env d)) scripts)
      = map (\<lambda>d. fst (checkZip env d)) (filter (\<lambda>d. \<not> zipOnDisk env d) scripts)"
    by (simp add: filter_map comp_def truthy_checkZip)
  also have "\<dots> = map (\<lambda>d. d\<lparr>zipFile := None\<rparr>) (filter (\<lambda>d. \<not> zipOnDisk env d) scripts)"
    by (rule map_cong) (simp_all add: fst_checkZip)
  finally show ?thesis by (simp add: filterModified_def Let_def comp_def)
qed

lemma ignored_filterModified_list:
  "filter (\<lambda>s. truthy (zipFile s)) (map (\<lambda>d. fst (checkZip env d)) scripts)
      = filter (zipOnDisk env) scripts"
proof -
  have "filter (\<lambda>s. truthy (zipFile s)) (map (\<lambda>d. fst (checkZip env d)) scripts)
      = map (\<lambda>d. fst (checkZip env d)) (filter (zipOnDisk env) scripts)"
    by (simp add: filter_map comp_def truthy_checkZip)
  also have "\<dots> = map (\<lambda>d. d) (filter (zipOnDisk env) scripts)"
    by (rule map_cong) (simp_all add: fst_checkZip)
  finally show ?thesis by simp
qed

lemma effects_filterModified:
  "snd (filterModified env scripts)
     = concat (map (\<lambda>d. snd (checkZip env d)) scripts)
       @ map (\<lambda>d. Emit (IgnorePackage d)) (filter (zipOnDisk env) scripts)"
  by (simp add: filterModified_def Let_def ignored_filterModified_list comp_def)

lemma ignored_checkZip: "concat (map ignoredPackage (snd (checkZip env d))) = []"
  by (cases "zipFile d") (simp_all add: snd_checkZip)

lemma ignorePackageNotifications_checks:
  "ignorePackageNotifications (concat (map (\<lambda>d. snd (checkZip env d)) scripts)) = []"
  unfolding ignorePackageNotifications_def
  by (induction scripts) (simp_all add: ignored_checkZip del: concat_eq_Nil_conv)

lemma ignorePackageNotifications_emits:
  "ignorePackageNotifications (map (\<lambda>d. Emit (IgnorePackage d)) ds) = ds"
  by (induction ds) (simp_all add: ignorePackageNotifications_def)

lemma ignorePackageNotifications_append:
  "ignorePackageNotifications (xs @ ys) = ignorePackageNotifications xs @ ignorePackageNotifications ys"
  by (simp add: ignorePackageNotifications_def)

lemma ignored_filterModified:
  "ignorePackageNotifications (snd (filterModified env scripts)) = filter (zipOnDisk env) scripts"
  by (simp add: effects_filterModified ignorePackageNotifications_append
      ignorePackageNotifications_checks ignorePackageNotifications_emits)

lemma pathChecks_append: "pathChecks (xs @ ys) = pathChecks xs @ pathChecks ys"
  by (simp add: pathChecks_def)

lemma pathChecks_emits: "pathChecks (map (\<lambda>d. Emit (IgnorePackage d)) ds) = []"
  by (induction ds) (simp_all add: pathChecks_def)

lemma pathChecks_filterModified:
  "pathChecks (snd (filterModified env scripts)) = truthyZipFiles scripts"
proof -
  have "pathChecks (concat (map (\<lambda>d. snd (checkZip env d)) scripts)) = truthyZipFiles scripts"
    by (induction scripts)
       (simp_all add: pathChecks_def truthyZipFiles_def snd_checkZip split: option.splits)
  then show ?thesis
    by (simp add: effects_filterModified pathChecks_append pathChecks_emits)
qed

lemma count_list_filter:
  "count_list (filter Q xs) d = (if Q d then count_list xs d else 0)"
  by (induction xs) auto

lemma workingSet_onlyModified:
  "onlyModified cmd \<Longrightarrow> workingSet env cmd scriptInfos = filterModified env (flattenDependencies scriptInfos)"
  by (simp add: workingSet_def Let_def)

section \<open>The phases of a run\<close>

lemma archiving_start: "\<forall>a \<in> set (snd (createPackageStart P i)). isArchiving a"
  by (cases "zipFile i") (simp_all add: createPackageStart_def Let_def)

lemma archiving_deliver: "\<forall>a \<in> set (snd (deliver P pk ev)). isArchiving a"
  by (cases ev) (simp_all add: Let_def)

lemma archiving_deliverAt: "\<forall>a \<in> set (snd (deliverAt P pks e)). isArchiving a"
proof (cases e)
  case (Pair k ev)
  show ?thesis
    using archiving_deliver [of P "pks ! k" ev]
    by (simp add: Pair split: prod.splits)
qed

lemma snd_deliverEach_Cons:
  "snd (deliverEach P pks (e # es))
     = snd (deliverAt P pks e) @ snd (deliverEach P (fst (deliverAt P pks e)) es)"
  by (simp add: Let_def split: prod.splits)

lemma fst_deliverEach_Cons:
  "fst (deliverEach P pks (e # es)) = fst (deliverEach P (fst (deliverAt P pks e)) es)"
  by (simp add: Let_def split: prod.splits)

lemma archiving_deliverEach: "\<forall>a \<in> set (snd (deliverEach P pks es)). isArchiving a"
proof (induction es arbitrary: pks)
  case Nil
  show ?case by simp
next
  case (Cons e es)
  show ?case
    unfolding snd_deliverEach_Cons
    using archiving_deliverAt [of P pks e] Cons.IH [of "fst (deliverAt P pks e)"]
    by auto
qed

lemma awaitAll_parts:
  "awaitAll P pks es = (awaitState P pks es, awaitOps P pks es, awaitActs P pks es, awaitRest P pks es)"
  by (simp add: awaitState_def awaitOps_def awaitActs_def awaitRest_def)

lemma awaitActs_Nil: "awaitActs P pks [] = []"
  by (simp add: awaitActs_def)

lemma awaitActs_Cons:
  "awaitActs P pks (e # es) =
     (if promiseAll pks \<noteq> AllPending then []
      else snd (deliverAt P pks e) @ awaitActs P (fst (deliverAt P pks e)) es)"
  by (simp add: awaitActs_def Let_def split: prod.splits)

lemma awaitOps_Nil: "awaitOps P pks [] = pks"
  by (simp add: awaitOps_def)

lemma awaitOps_Cons:
  "awaitOps P pks (e # es) =
     (if promiseAll pks \<noteq> AllPending then pks else awaitOps P (fst (deliverAt P pks e)) es)"
  by (simp add: awaitOps_def Let_def split: prod.splits)

lemma awaitState_Nil: "awaitState P pks [] = promiseAll pks"
  by (simp add: awaitState_def)

lemma awaitState_Cons:
  "awaitState P pks (e # es) =
     (if promiseAll pks \<noteq> AllPending then promiseAll pks
      else awaitState P (fst (deliverAt P pks e)) es)"
  by (simp add: awaitState_def Let_def split: prod.splits)

lemma awaitRest_Nil: "awaitRest P pks [] = []"
  by (simp add: awaitRest_def)

lemma awaitRest_Cons:
  "awaitRest P pks (e # es) =
     (if promiseAll pks \<noteq> AllPending then e # es else awaitRest P (fst (deliverAt P pks e)) es)"
  by (simp add: awaitRest_def Let_def split: prod.splits)

lemma archiving_awaitActs: "\<forall>a \<in> set (awaitActs P pks es). isArchiving a"
proof (induction es arbitrary: pks)
  case Nil
  show ?case by (simp add: awaitActs_Nil)
next
  case (Cons e es)
  show ?case
    unfolding awaitActs_Cons
    using archiving_deliverAt [of P pks e] Cons.IH [of "fst (deliverAt P pks e)"]
    by auto
qed

lemma archiving_starts:
  "\<forall>a \<in> set (concat (map snd (map (createPackageStart P) scripts))). isArchiving a"
  using archiving_start by auto

lemma bundling_createBundles:
  "\<forall>a \<in> set (snd (createBundles P env tgt minify scripts)). isBundling a"
  by (auto simp: createBundles_def Let_def split: sum.splits)

lemma filtering_checkZip: "\<forall>a \<in> set (snd (checkZip env d)). isFiltering a"
  by (cases "zipFile d") (simp_all add: snd_checkZip)

lemma filtering_workingSet: "\<forall>a \<in> set (snd (workingSet env cmd infos)). isFiltering a"
  using filtering_checkZip
  by (auto simp: workingSet_def Let_def effects_filterModified)

lemma packageScripts_thrown:
  assumes "fst (createBundles P env tgt minify (map (deriveInfo P tgt) ws)) = Some e"
  shows "packageScripts P env tgt minify ws
           = (Failed e, snd (createBundles P env tgt minify (map (deriveInfo P tgt) ws)), [])"
  using assms
  by (cases "createBundles P env tgt minify (map (deriveInfo P tgt) ws)")
     (simp add: packageScripts_def Let_def)

lemma packageScripts_bundled:
  assumes "fst (createBundles P env tgt minify (map (deriveInfo P tgt) ws)) = None"
  shows "packageScripts P env tgt minify ws =
     (let scripts = map (deriveInfo P tgt) ws;
          pks0 = startedOps P scripts;
          pks = awaitOps P pks0 (archiveEvents env);
          acts = snd (createBundles P env tgt minify scripts) @ startActions P scripts
                   @ awaitActs P pks0 (archiveEvents env);
          later = snd (deliverEach P pks (awaitRest P pks0 (archiveEvents env)))
      in case awaitState P pks0 (archiveEvents env) of
           AllPending \<Rightarrow> (NeverSettles, acts, later)
         | AllRejected e \<Rightarrow> (Failed e, acts, later)
         | AllResolved \<Rightarrow>
             (case writeResult env pks of
                Some e \<Rightarrow> (Failed e, acts @ writeActions pks, later)
              | None \<Rightarrow> (Completed, acts @ writeActions pks, later)))"
  using assms
  by (cases "createBundles P env tgt minify (map (deriveInfo P tgt) ws)")
     (simp add: packageScripts_def Let_def startedOps_def startActions_def writeActions_def
      writeResult_def awaitAll_parts del: map_map split: AllState.splits option.splits)

lemma run_started:
  assumes "superInit env = None"
    and "buildRun env (files cmd) (runTarget P cmd) = None"
    and "loadInfos env (runTarget P cmd) = Inr infos"
  shows "run P env cmd =
     (let scripts = fst (workingSet env cmd infos); filtering = snd (workingSet env cmd infos) in
      if scripts \<noteq> [] then
        (case packageScripts P env (runTarget P cmd) (enableMinify cmd) scripts of
           (Completed, acts, later) \<Rightarrow>
             (Completed, filtering @ acts @ [LogInfo completedMessage] @ later)
         | (out, acts, later) \<Rightarrow> (out, filtering @ acts @ later))
      else (Completed, filtering @ [LogInfo completedMessage]))"
proof -
  obtain scripts filtering where ws: "workingSet env cmd infos = (scripts, filtering)"
    by (cases "workingSet env cmd infos")
  obtain out acts later
    where ps: "packageScripts P env (runTarget P cmd) (enableMinify cmd) scripts = (out, acts, later)"
    by (cases "packageScripts P env (runTarget P cmd) (enableMinify cmd) scripts")
  show ?thesis
    using assms ws ps
    by (cases out) (simp_all add: run_def runTarget_def Let_def)
qed

lemma run_not_started:
  assumes "superInit env \<noteq> None
         \<or> buildRun env (files cmd) (runTarget P cmd) \<noteq> None
         \<or> (\<exists>e. loadInfos env (runTarget P cmd) = Inl e)"
  shows "snd (run P env cmd) = []"
  using assms by (auto simp: run_def runTarget_def Let_def split: option.splits sum.splits)

lemma run_nonempty:
  assumes "superInit env = None"
    and "buildRun env (files cmd) (runTarget P cmd) = None"
    and "loadInfos env (runTarget P cmd) = Inr infos"
    and "fst (workingSet env cmd infos) \<noteq> []"
  shows "fst (run P env cmd)
           = fst (packageScripts P env (runTarget P cmd) (enableMinify cmd) (fst (workingSet env cmd infos)))"
    and "snd (run P env cmd)
           = snd (workingSet env cmd infos)
             @ fst (snd (packageScripts P env (runTarget P cmd) (enableMinify cmd)
                      (fst (workingSet env cmd infos))))
             @ (if fst (packageScripts P env (runTarget P cmd) (enableMinify cmd)
                      (fst (workingSet env cmd infos))) = Completed
                then [LogInfo completedMessage] else [])
             @ snd (snd (packageScripts P env (runTarget P cmd) (enableMinify cmd)
                      (fst (workingSet env cmd infos))))"
proof -
  let ?ps = "packageScripts P env (runTarget P cmd) (enableMinify cmd) (fst (workingSet env cmd infos))"
  obtain out acts later where ps: "?ps = (out, acts, later)"
    by (cases ?ps)
  show "fst (run P env cmd) = fst ?ps"
    unfolding run_started [OF assms(1-3)] using assms(4) ps
    by (cases out) (simp_all add: Let_def)
  show "snd (run P env cmd) = snd (workingSet env cmd infos) @ fst (snd ?ps)
      @ (if fst ?ps = Completed then [LogInfo completedMessage] else []) @ snd (snd ?ps)"
    unfolding run_started [OF assms(1-3)] using assms(4) ps
    by (cases out) (simp_all add: Let_def)
qed

lemma run_empty:
  assumes "superInit env = None"
    and "buildRun env (files cmd) (runTarget P cmd) = None"
    and "loadInfos env (runTarget P cmd) = Inr infos"
    and "fst (workingSet env cmd infos) = []"
  shows "run P env cmd = (Completed, snd (workingSet env cmd infos) @ [LogInfo completedMessage])"
  unfolding run_started [OF assms(1-3)] using assms(4) by (simp add: Let_def)

text \<open>The three results of \<open>packageScripts\<close> in terms of the phases.\<close>

lemma packageScripts_acts:
  "\<exists>rest. fst (snd (packageScripts P env tgt minify ws))
            = snd (createBundles P env tgt minify (map (deriveInfo P tgt) ws)) @ rest
          \<and> (\<forall>a \<in> set rest. isArchiving a \<or> isWrite a)"
proof (cases "fst (createBundles P env tgt minify (map (deriveInfo P tgt) ws))")
  case (Some e)
  show ?thesis
    unfolding packageScripts_thrown [OF Some] by simp
next
  case None
  let ?scripts = "map (deriveInfo P tgt) ws"
  let ?started = "startedOps P ?scripts"
  let ?arch = "startActions P ?scripts @ awaitActs P ?started (archiveEvents env)"
  let ?wr = "writeActions (awaitOps P ?started (archiveEvents env))"
  have arch: "\<forall>a \<in> set ?arch. isArchiving a"
    using archiving_starts [of P ?scripts] archiving_awaitActs [of P ?started "archiveEvents env"]
    by (auto simp: startActions_def)
  have wr: "\<forall>a \<in> set ?wr. isWrite a"
    by (auto simp: writeActions_def)
  have "fst (snd (packageScripts P env tgt minify ws))
          = snd (createBundles P env tgt minify ?scripts) @ ?arch
      \<or> fst (snd (packageScripts P env tgt minify ws))
          = snd (createBundles P env tgt minify ?scripts) @ (?arch @ ?wr)"
    unfolding packageScripts_bundled [OF None]
    by (simp add: Let_def split: AllState.splits option.splits)
  then show ?thesis
  proof
    assume "fst (snd (packageScripts P env tgt minify ws))
          = snd (createBundles P env tgt minify ?scripts) @ ?arch"
    with arch show ?thesis by blast
  next
    assume "fst (snd (packageScripts P env tgt minify ws))
          = snd (createBundles P env tgt minify ?scripts) @ (?arch @ ?wr)"
    moreover have "\<forall>a \<in> set (?arch @ ?wr). isArchiving a \<or> isWrite a"
      using arch wr by auto
    ultimately show ?thesis by blast
  qed
qed

lemma packageScripts_later:
  "\<forall>a \<in> set (snd (snd (packageScripts P env tgt minify ws))). isArchiving a"
proof (cases "fst (createBundles P env tgt minify (map (deriveInfo P tgt) ws))")
  case (Some e)
  show ?thesis
    unfolding packageScripts_thrown [OF Some] by simp
next
  case None
  let ?scripts = "map (deriveInfo P tgt) ws"
  let ?started = "startedOps P ?scripts"
  have "snd (snd (packageScripts P env tgt minify ws))
      = snd (deliverEach P (awaitOps P ?started (archiveEvents env))
               (awaitRest P ?started (archiveEvents env)))"
    unfolding packageScripts_bundled [OF None]
    by (simp add: Let_def split: AllState.splits option.splits)
  then show ?thesis
    using archiving_deliverEach by simp
qed

lemma classes_disjoint:
  "isFiltering a \<Longrightarrow> \<not> isArchiving a"
  "isBundling a \<Longrightarrow> \<not> isArchiving a"
  "isWrite a \<Longrightarrow> \<not> isBundling a"
  "isArchiving a \<Longrightarrow> \<not> isBundling a"
  "\<not> isBundling (LogInfo m)"
  by (cases a rule: isArchiving.cases; simp)+

lemma run_phases:
  "\<exists>pre post. snd (run P env cmd) = pre @ post
     \<and> (\<forall>a \<in> set pre. \<not> isArchiving a) \<and> (\<forall>a \<in> set post. \<not> isBundling a)"
proof (cases "superInit env = None \<and> buildRun env (files cmd) (runTarget P cmd) = None
    \<and> (\<exists>infos. loadInfos env (runTarget P cmd) = Inr infos)")
  case False
  then have "superInit env \<noteq> None \<or> buildRun env (files cmd) (runTarget P cmd) \<noteq> None
         \<or> (\<exists>e. loadInfos env (runTarget P cmd) = Inl e)"
    by (cases "loadInfos env (runTarget P cmd)") auto
  then have "snd (run P env cmd) = [] @ []"
    using run_not_started by simp
  then show ?thesis by fastforce
next
  case True
  then obtain infos where ok: "superInit env = None"
      "buildRun env (files cmd) (runTarget P cmd) = None"
      "loadInfos env (runTarget P cmd) = Inr infos"
    by blast
  let ?ws = "fst (workingSet env cmd infos)"
  let ?filt = "snd (workingSet env cmd infos)"
  have filt: "\<forall>a \<in> set ?filt. \<not> isArchiving a"
    using filtering_workingSet [of env cmd infos] classes_disjoint(1) by blast
  show ?thesis
  proof (cases "?ws = []")
    case True
    have "snd (run P env cmd) = ?filt @ [LogInfo completedMessage]"
      unfolding run_empty [OF ok True] by simp
    moreover have "\<forall>a \<in> set [LogInfo completedMessage]. \<not> isBundling a" by simp
    ultimately show ?thesis using filt by blast
  next
    case False
    let ?ps = "packageScripts P env (runTarget P cmd) (enableMinify cmd) ?ws"
    let ?fin = "if fst ?ps = Completed then [LogInfo completedMessage] else []"
    let ?bund = "snd (createBundles P env (runTarget P cmd) (enableMinify cmd)
                       (map (deriveInfo P (runTarget P cmd)) ?ws))"
    obtain rest where acts: "fst (snd ?ps) = ?bund @ rest"
        and rest: "\<forall>a \<in> set rest. isArchiving a \<or> isWrite a"
      using packageScripts_acts [of P env "runTarget P cmd" "enableMinify cmd" ?ws] by blast
    have tr: "snd (run P env cmd) = (?filt @ ?bund) @ (rest @ ?fin @ snd (snd ?ps))"
      unfolding run_nonempty(2) [OF ok False] acts by simp
    have pre: "\<forall>a \<in> set (?filt @ ?bund). \<not> isArchiving a"
      using filt bundling_createBundles [of P env "runTarget P cmd" "enableMinify cmd"]
        classes_disjoint(2) by auto
    have post: "\<forall>a \<in> set (rest @ ?fin @ snd (snd ?ps)). \<not> isBundling a"
      using rest packageScripts_later [of P env "runTarget P cmd" "enableMinify cmd" ?ws]
        classes_disjoint(3,4) by auto
    from tr pre post show ?thesis by blast
  qed
qed

text \<open>
  Claim C7.  In the trace of every run, every effect of archiving (the creation of a
  write stream, the requests to an archive, and what its handlers do) comes after every
  effect of bundling (the run of the bundler and the logging of the errors and warnings
  it returned).
\<close>

theorem bundling_before_archiving:
  assumes "i < length (snd (run P env cmd))"
    and "j < length (snd (run P env cmd))"
    and "isArchiving (snd (run P env cmd) ! i)"
    and "isBundling (snd (run P env cmd) ! j)"
  shows "j < i"
proof -
  obtain pre post where tr: "snd (run P env cmd) = pre @ post"
      and pre: "\<forall>a \<in> set pre. \<not> isArchiving a" and post: "\<forall>a \<in> set post. \<not> isBundling a"
    using run_phases [of P env cmd] by blast
  have i: "length pre \<le> i"
  proof (rule ccontr)
    assume "\<not> length pre \<le> i"
    then have "i < length pre" by simp
    then have "(pre @ post) ! i \<in> set pre" by (simp add: nth_append)
    with pre assms(3) tr show False by simp
  qed
  have j: "j < length pre"
  proof (rule ccontr)
    assume n: "\<not> j < length pre"
    then have "(pre @ post) ! j = post ! (j - length pre)" by (simp add: nth_append)
    moreover have "j - length pre < length post" using n assms(2) tr by simp
    ultimately have "(pre @ post) ! j \<in> set post" by simp
    with post assms(4) tr show False by simp
  qed
  from i j show ?thesis by simp
qed

theorem bundling_before_archiving_witness:
  "isArchiving (snd (run posixPlatform warnEnv incrementalCmd) ! 5)
   \<and> isBundling (snd (run posixPlatform warnEnv incrementalCmd) ! 4)
   \<and> snd (run posixPlatform warnEnv incrementalCmd) ! 5 = CreateWriteStream ''/proj/.hlx/build/json.zip''
   \<and> snd (run posixPlatform warnEnv incrementalCmd) ! 4 = LogWarn (Diag ''unused export'')
   \<and> (4::nat) < 5"
proof -
  let ?tr = "snd (run posixPlatform warnEnv incrementalCmd)"
  have i: "(5::nat) < length ?tr" by code_simp
  have j: "(4::nat) < length ?tr" by code_simp
  have a: "?tr ! 5 = CreateWriteStream ''/proj/.hlx/build/json.zip''" by code_simp
  have b: "?tr ! 4 = LogWarn (Diag ''unused export'')" by code_simp
  have ia: "isArchiving (?tr ! 5)" unfolding a by simp
  have jb: "isBundling (?tr ! 4)" unfolding b by simp
  from bundling_before_archiving [OF i j ia jb] ia jb a b show ?thesis by blast
qed

section \<open>The empty working set\<close>

text \<open>
  Claim C5.  When the working set is empty after the incremental filter, the run
  completes; its trace is the effects of the filter followed by the completion message,
  so the bundler is not run, no archive is opened or written, no descriptor file is
  written, and nothing is logged as a warning or an error.
\<close>

theorem empty_working_set:
  assumes init: "superInit env = None"
    and build: "buildRun env (files cmd) (runTarget P cmd) = None"
    and load: "loadInfos env (runTarget P cmd) = Inr infos"
    and empty: "fst (workingSet env cmd infos) = []"
  shows "fst (run P env cmd) = Completed
       \<and> snd (run P env cmd) = snd (workingSet env cmd infos) @ [LogInfo completedMessage]
       \<and> (\<forall>a \<in> set (snd (run P env cmd)).
             \<not> isBundling a \<and> \<not> isArchiving a \<and> \<not> isWrite a \<and> \<not> isComplaint a)"
proof -
  have r: "run P env cmd = (Completed, snd (workingSet env cmd infos) @ [LogInfo completedMessage])"
    using init build load empty by (rule run_empty)
  have quiet: "\<not> isBundling a \<and> \<not> isArchiving a \<and> \<not> isWrite a \<and> \<not> isComplaint a"
    if "isFiltering a \<or> a = LogInfo completedMessage" for a
    using that by (cases a rule: isFiltering.cases) auto
  have "\<forall>a \<in> set (snd (workingSet env cmd infos) @ [LogInfo completedMessage]).
      isFiltering a \<or> a = LogInfo completedMessage"
    using filtering_workingSet [of env cmd infos] by auto
  with quiet have "\<forall>a \<in> set (snd (workingSet env cmd infos) @ [LogInfo completedMessage]).
      \<not> isBundling a \<and> \<not> isArchiving a \<and> \<not> isWrite a \<and> \<not> isComplaint a"
    by blast
  then show ?thesis unfolding r by simp
qed

theorem empty_working_set_witness:
  "superInit upToDateEnv = None
   \<and> fst (workingSet upToDateEnv incrementalCmd [htmlZipped, jsonStale]) = []
   \<and> run posixPlatform upToDateEnv incrementalCmd
       = (Completed,
          [PathExists ''/proj/.hlx/build/html.zip'', PathExists ''/proj/.hlx/build/json.zip'',
           Emit (IgnorePackage htmlZipped), Emit (IgnorePackage jsonStale),
           LogInfo completedMessage])"
proof -
  have init: "superInit upToDateEnv = None" by (simp add: upToDateEnv_def warnEnv_def)
  have build: "buildRun upToDateEnv (files incrementalCmd) (runTarget posixPlatform incrementalCmd) = None"
    by (simp add: upToDateEnv_def warnEnv_def)
  have load: "loadInfos upToDateEnv (runTarget posixPlatform incrementalCmd) = Inr [htmlZipped, jsonStale]"
    by code_simp
  have empty: "fst (workingSet upToDateEnv incrementalCmd [htmlZipped, jsonStale]) = []"
    by code_simp
  have filt: "snd (workingSet upToDateEnv incrementalCmd [htmlZipped, jsonStale])
      = [PathExists ''/proj/.hlx/build/html.zip'', PathExists ''/proj/.hlx/build/json.zip'',
         Emit (IgnorePackage htmlZipped), Emit (IgnorePackage jsonStale)]"
    by code_simp
  note T = empty_working_set [OF init build load empty]
  from T have "run posixPlatform upToDateEnv incrementalCmd
      = (Completed, snd (workingSet upToDateEnv incrementalCmd [htmlZipped, jsonStale])
           @ [LogInfo completedMessage])"
    by (simp add: prod_eq_iff)
  with filt init empty show ?thesis by simp
qed

section \<open>Bundler diagnostics\<close>

lemma streamsOpened_append: "streamsOpened (xs @ ys) = streamsOpened xs @ streamsOpened ys"
  by (simp add: streamsOpened_def)

lemma streamsOpened_Nil: "streamsOpened [] = []"
  by (simp add: streamsOpened_def)

lemma writtenFiles_Nil: "writtenFiles [] = []"
  by (simp add: writtenFiles_def)

lemma writtenFiles_append: "writtenFiles (xs @ ys) = writtenFiles xs @ writtenFiles ys"
  by (simp add: writtenFiles_def)

lemma concat_map_Nil: "(\<And>x. x \<in> set xs \<Longrightarrow> f x = []) \<Longrightarrow> concat (map f xs) = []"
  by (induction xs) simp_all

lemma filtering_reads:
  assumes "isFiltering a"
  shows "openedStream a = []" and "writtenFile a = []" and "\<not> isDiagnosticLog a"
  using assms by (cases a rule: isFiltering.cases; simp)+

lemma bundling_reads:
  assumes "isBundling a"
  shows "openedStream a = []" and "writtenFile a = []"
  using assms by (cases a rule: isBundling.cases; simp)+

lemma archiving_reads:
  assumes "isArchiving a"
  shows "writtenFile a = []" and "\<not> isDiagnosticLog a"
  using assms by (cases a rule: isArchiving.cases; simp)+

lemma write_reads:
  assumes "isWrite a"
  shows "openedStream a = []" and "\<not> isDiagnosticLog a"
  using assms by (cases a rule: isWrite.cases; simp)+

lemma event_deliver: "\<forall>a \<in> set (snd (deliver P pk ev)). isEventEffect a"
  by (cases ev) (simp_all add: Let_def)

lemma event_deliverAt: "\<forall>a \<in> set (snd (deliverAt P pks e)). isEventEffect a"
proof (cases e)
  case (Pair k ev)
  show ?thesis
    using event_deliver [of P "pks ! k" ev]
    by (simp add: Pair split: prod.splits)
qed

lemma event_deliverEach: "\<forall>a \<in> set (snd (deliverEach P pks es)). isEventEffect a"
proof (induction es arbitrary: pks)
  case Nil
  show ?case by simp
next
  case (Cons e es)
  show ?case
    unfolding snd_deliverEach_Cons
    using event_deliverAt [of P pks e] Cons.IH [of "fst (deliverAt P pks e)"]
    by auto
qed

lemma event_awaitActs: "\<forall>a \<in> set (awaitActs P pks es). isEventEffect a"
proof (induction es arbitrary: pks)
  case Nil
  show ?case by (simp add: awaitActs_Nil)
next
  case (Cons e es)
  show ?case
    unfolding awaitActs_Cons
    using event_deliverAt [of P pks e] Cons.IH [of "fst (deliverAt P pks e)"]
    by auto
qed

lemma event_reads:
  assumes "isEventEffect a"
  shows "openedStream a = []" and "writtenFile a = []" and "\<not> isDiagnosticLog a"
  using assms by (cases a rule: isEventEffect.cases; simp)+

lemma opened_events:
  assumes "\<forall>a \<in> set acts. isEventEffect a"
  shows "streamsOpened acts = []"
  unfolding streamsOpened_def using assms by (intro concat_map_Nil) (simp add: event_reads)

lemma written_events:
  assumes "\<forall>a \<in> set acts. isEventEffect a"
  shows "writtenFiles acts = []"
  unfolding writtenFiles_def using assms by (intro concat_map_Nil) (simp add: event_reads)

lemma quiet_events:
  assumes "\<forall>a \<in> set acts. isEventEffect a"
  shows "filter isDiagnosticLog acts = []" and "filter (\<lambda>a. \<not> isDiagnosticLog a) acts = acts"
  using assms by (auto simp: event_reads filter_empty_conv filter_id_conv)

lemma opened_start:
  "map Some (streamsOpened (snd (createPackageStart P i)))
     = (case zipFile i of None \<Rightarrow> [] | Some z \<Rightarrow> [Some z])"
  by (cases "zipFile i") (simp_all add: createPackageStart_def streamsOpened_def Let_def)

lemma zipFile_deriveInfo:
  "zipFile (deriveInfo P tgt s)
     = Some (path_resolve P [tgt, if isStatic s then [] else path_dirname P (main s),
               path_basename_ext P (main s) ''.js'' @ ''.zip''])"
  by (simp add: deriveInfo_def Let_def)

lemma opened_starts:
  "map Some (streamsOpened (startActions P (map (deriveInfo P tgt) ws)))
     = map zipFile (map (deriveInfo P tgt) ws)"
proof (induction ws)
  case Nil
  show ?case by (simp add: startActions_def streamsOpened_def)
next
  case (Cons s ws)
  have split: "startActions P (map (deriveInfo P tgt) (s # ws))
      = snd (createPackageStart P (deriveInfo P tgt s)) @ startActions P (map (deriveInfo P tgt) ws)"
    by (simp add: startActions_def)
  show ?case
    unfolding split streamsOpened_append map_append Cons.IH opened_start
    by (simp add: zipFile_deriveInfo)
qed

lemma packageScripts_bundled_parts:
  assumes "fst (createBundles P env tgt minify (map (deriveInfo P tgt) ws)) = None"
  shows "fst (packageScripts P env tgt minify ws)
           = settledOutcome env
               (awaitState P (startedOps P (map (deriveInfo P tgt) ws)) (archiveEvents env))
               (awaitOps P (startedOps P (map (deriveInfo P tgt) ws)) (archiveEvents env))"
    and "fst (snd (packageScripts P env tgt minify ws))
           = snd (createBundles P env tgt minify (map (deriveInfo P tgt) ws))
             @ startActions P (map (deriveInfo P tgt) ws)
             @ awaitActs P (startedOps P (map (deriveInfo P tgt) ws)) (archiveEvents env)
             @ (if awaitState P (startedOps P (map (deriveInfo P tgt) ws)) (archiveEvents env)
                   = AllResolved
                then writeActions
                       (awaitOps P (startedOps P (map (deriveInfo P tgt) ws)) (archiveEvents env))
                else [])"
    and "snd (snd (packageScripts P env tgt minify ws))
           = snd (deliverEach P
                   (awaitOps P (startedOps P (map (deriveInfo P tgt) ws)) (archiveEvents env))
                   (awaitRest P (startedOps P (map (deriveInfo P tgt) ws)) (archiveEvents env)))"
  unfolding packageScripts_bundled [OF assms] settledOutcome_def
  by (simp_all add: Let_def split: AllState.splits option.splits)

lemma createBundles_returned:
  assumes "bundlerRun env tgt minify (bundleFiles P tgt scripts) = Inr stats"
  shows "createBundles P env tgt minify scripts
           = (None, [BundlerRun (bundleFiles P tgt scripts)]
                    @ map (\<lambda>d. LogError (Diag d)) (orEmpty (errors stats))
                    @ map (\<lambda>d. LogWarn (Diag d)) (orEmpty (warnings stats)))"
  using assms by (simp add: createBundles_def Let_def)

lemma diagnostics_of_bundling:
  "filter isDiagnosticLog ([BundlerRun fs] @ map (\<lambda>d. LogError (Diag d)) es
        @ map (\<lambda>d. LogWarn (Diag d)) ws)
     = map (\<lambda>d. LogError (Diag d)) es @ map (\<lambda>d. LogWarn (Diag d)) ws"
  "filter (\<lambda>a. \<not> isDiagnosticLog a) ([BundlerRun fs] @ map (\<lambda>d. LogError (Diag d)) es
        @ map (\<lambda>d. LogWarn (Diag d)) ws) = [BundlerRun fs]"
  "streamsOpened ([BundlerRun fs] @ map (\<lambda>d. LogError (Diag d)) es
        @ map (\<lambda>d. LogWarn (Diag d)) ws) = []"
  by (simp_all add: filter_map comp_def streamsOpened_def)

lemma quiet_filtering:
  assumes "\<forall>a \<in> set acts. isFiltering a"
  shows "filter isDiagnosticLog acts = []" and "filter (\<lambda>a. \<not> isDiagnosticLog a) acts = acts"
    and "streamsOpened acts = []" and "writtenFiles acts = []"
proof -
  show "filter isDiagnosticLog acts = []" "filter (\<lambda>a. \<not> isDiagnosticLog a) acts = acts"
    using assms by (auto simp: filtering_reads filter_empty_conv filter_id_conv)
  show "streamsOpened acts = []"
    unfolding streamsOpened_def using assms by (intro concat_map_Nil) (simp add: filtering_reads)
  show "writtenFiles acts = []"
    unfolding writtenFiles_def using assms by (intro concat_map_Nil) (simp add: filtering_reads)
qed

lemma quiet_archiving:
  assumes "\<forall>a \<in> set acts. isArchiving a"
  shows "filter isDiagnosticLog acts = []" and "filter (\<lambda>a. \<not> isDiagnosticLog a) acts = acts"
    and "writtenFiles acts = []"
proof -
  show "filter isDiagnosticLog acts = []" "filter (\<lambda>a. \<not> isDiagnosticLog a) acts = acts"
    using assms by (auto simp: archiving_reads filter_empty_conv filter_id_conv)
  show "writtenFiles acts = []"
    unfolding writtenFiles_def using assms by (intro concat_map_Nil) (simp add: archiving_reads)
qed

lemma quiet_writes:
  "filter isDiagnosticLog (writeActions pks) = []"
  "filter (\<lambda>a. \<not> isDiagnosticLog a) (writeActions pks) = writeActions pks"
  "streamsOpened (writeActions pks) = []"
  "writtenFiles (writeActions pks) = map (\<lambda>s. (infoFile s, s)) (map info pks)"
  by (induction pks) (simp_all add: writeActions_def streamsOpened_def writtenFiles_def)

lemma writeResult_withoutDiagnostics:
  "writeResult (withoutDiagnostics env) pks = writeResult env pks"
  by (simp add: withoutDiagnostics_def writeResult_def)

lemma pathExists_withoutDiagnostics: "pathExists (withoutDiagnostics env) = pathExists env"
  by (simp add: withoutDiagnostics_def)

lemma checkZip_withoutDiagnostics: "checkZip (withoutDiagnostics env) = checkZip env"
  by (rule ext) (simp only: checkZip_def pathExists_withoutDiagnostics)

lemma withoutDiagnostics_same:
  "superInit (withoutDiagnostics env) = superInit env"
  "buildRun (withoutDiagnostics env) = buildRun env"
  "loadInfos (withoutDiagnostics env) tgt = loadInfos env tgt"
  "workingSet (withoutDiagnostics env) cmd infos = workingSet env cmd infos"
  "archiveEvents (withoutDiagnostics env) = archiveEvents env"
  "settledOutcome (withoutDiagnostics env) st pks = settledOutcome env st pks"
proof -
  show "superInit (withoutDiagnostics env) = superInit env"
    "buildRun (withoutDiagnostics env) = buildRun env"
    "loadInfos (withoutDiagnostics env) tgt = loadInfos env tgt"
    "archiveEvents (withoutDiagnostics env) = archiveEvents env"
    by (simp_all add: withoutDiagnostics_def loadInfos_def)
  show "workingSet (withoutDiagnostics env) cmd infos = workingSet env cmd infos"
    unfolding workingSet_def filterModified_def checkZip_withoutDiagnostics ..
  show "settledOutcome (withoutDiagnostics env) st pks = settledOutcome env st pks"
    unfolding settledOutcome_def writeResult_withoutDiagnostics ..
qed

lemma createBundles_withoutDiagnostics:
  "createBundles P (withoutDiagnostics env) tgt minify scripts
     = (None, [BundlerRun (bundleFiles P tgt scripts)])"
  by (simp add: createBundles_def withoutDiagnostics_def Let_def orEmpty_def)

lemma deliver_keeps_resolved: "isResolved pk \<Longrightarrow> isResolved (fst (deliver P pk ev))"
  by (cases ev) (auto simp: isResolved_def settle_def Let_def split: PromiseState.splits)

lemma deliver_onTrack:
  assumes "onTrack pk (ev # es)"
  shows "onTrack (fst (deliver P pk ev)) es"
proof (cases "isResolved pk")
  case True
  then show ?thesis by (simp add: onTrack_def deliver_keeps_resolved)
next
  case False
  with assms have fresh: "freshOp pk" and cc: "closesCleanly (ev # es)"
    by (simp_all add: onTrack_def)
  show ?thesis
  proof (cases ev)
    case (Entry nm)
    with fresh cc show ?thesis by (simp add: onTrack_def freshOp_def)
  next
    case (Close n)
    with fresh show ?thesis
      by (simp add: onTrack_def freshOp_def isResolved_def settle_def Let_def)
  next
    case (Warning e)
    with cc show ?thesis by simp
  next
    case (Failure e)
    with cc show ?thesis by simp
  qed
qed

lemma eventsOf_Cons:
  "eventsOf k ((j, ev) # es) = (if j = k then ev # eventsOf k es else eventsOf k es)"
  by (simp add: eventsOf_def)

lemma deliverAt_onTrack:
  assumes "\<forall>k < length pks. onTrack (pks ! k) (eventsOf k ((j, ev) # es))"
  shows "length (fst (deliverAt P pks (j, ev))) = length pks
       \<and> (\<forall>k < length pks. onTrack (fst (deliverAt P pks (j, ev)) ! k) (eventsOf k es))"
proof (cases "j < length pks")
  case False
  then show ?thesis using assms by (auto simp: eventsOf_Cons)
next
  case True
  have upd: "fst (deliverAt P pks (j, ev)) = pks[j := fst (deliver P (pks ! j) ev)]"
    using True by (simp split: prod.splits)
  have "onTrack (pks[j := fst (deliver P (pks ! j) ev)] ! k) (eventsOf k es)"
    if k: "k < length pks" for k
  proof (cases "k = j")
    case True
    from assms k True have "onTrack (pks ! j) (eventsOf j ((j, ev) # es))"
      by blast
    then have "onTrack (pks ! j) (ev # eventsOf j es)"
      by (simp add: eventsOf_Cons)
    then have "onTrack (fst (deliver P (pks ! j) ev)) (eventsOf j es)"
      by (rule deliver_onTrack)
    then show ?thesis using True k by simp
  next
    case False
    from assms k have "onTrack (pks ! k) (eventsOf k ((j, ev) # es))"
      by blast
    then have "onTrack (pks ! k) (eventsOf k es)"
      using False by (simp add: eventsOf_Cons)
    then show ?thesis using False by simp
  qed
  then show ?thesis unfolding upd by simp
qed

lemma firstRejection_None:
  assumes "\<forall>pk \<in> set pks. \<forall>e. promise pk \<noteq> Rejected e"
  shows "firstRejection pks = None"
  using assms by (induction pks) (auto split: PromiseState.splits)

lemma onTrack_not_rejected: "onTrack pk es \<Longrightarrow> promise pk \<noteq> Rejected e"
  by (auto simp: onTrack_def isResolved_def freshOp_def split: PromiseState.splits)

lemma promiseAll_onTrack:
  assumes "\<forall>k < length pks. onTrack (pks ! k) (eventsOf k es)"
  shows "promiseAll pks = AllResolved \<or> promiseAll pks = AllPending"
proof -
  have "\<forall>pk \<in> set pks. \<forall>e. promise pk \<noteq> Rejected e"
    using assms onTrack_not_rejected by (metis in_set_conv_nth)
  then have "firstRejection pks = None" by (rule firstRejection_None)
  then show ?thesis by (simp add: promiseAll_def)
qed

lemma awaitState_resolves:
  assumes "\<forall>k < length pks. onTrack (pks ! k) (eventsOf k es)"
  shows "awaitState P pks es = AllResolved"
  using assms
proof (induction es arbitrary: pks)
  case Nil
  have "\<forall>k < length pks. isResolved (pks ! k)"
    using Nil by (simp add: onTrack_def eventsOf_def)
  then have all: "list_all isResolved pks"
    by (simp add: list_all_length)
  have "\<forall>pk \<in> set pks. \<forall>e. promise pk \<noteq> Rejected e"
    using Nil onTrack_not_rejected by (metis in_set_conv_nth)
  then have "firstRejection pks = None" by (rule firstRejection_None)
  with all show ?case by (simp add: awaitState_Nil promiseAll_def)
next
  case (Cons e es)
  obtain j ev where e: "e = (j, ev)" by (cases e)
  from promiseAll_onTrack [OF Cons.prems]
  show ?case
  proof
    assume "promiseAll pks = AllResolved"
    then show ?thesis by (simp add: awaitState_Cons)
  next
    assume pending: "promiseAll pks = AllPending"
    from deliverAt_onTrack [OF Cons.prems [unfolded e], of P]
    have "\<forall>k < length (fst (deliverAt P pks (j, ev))).
        onTrack (fst (deliverAt P pks (j, ev)) ! k) (eventsOf k es)"
      by simp
    then have "awaitState P (fst (deliverAt P pks (j, ev))) es = AllResolved"
      by (rule Cons.IH)
    then show ?thesis using pending by (simp add: awaitState_Cons e del: deliverAt.simps)
  qed
qed

lemma startedOps_fresh:
  assumes "k < length ws"
  shows "freshOp (startedOps P (map (deriveInfo P tgt) ws) ! k)"
  using assms createPackageStart_Some(1) [OF zipFile_deriveInfo]
  by (simp add: startedOps_def)

lemma firstError_None: "(\<forall>r \<in> set rs. r = None) \<Longrightarrow> firstError rs = None"
  by (induction rs) auto

lemma writeResult_None: "(\<forall>p d. writeJson env p d = None) \<Longrightarrow> writeResult env pks = None"
  unfolding writeResult_def by (rule firstError_None) simp

text \<open>
  Claim C6.  When the bundler returns (rather than throws), the errors and warnings it
  returned are each logged exactly once, in order; a write stream is opened for every
  script of the working set; the outcome of the run, and its trace apart from these
  logs, are those of the same run with a bundler that returns no diagnostics; and when
  every archive closes with no problem signalled before and the descriptor writes
  succeed, the run completes.
\<close>

theorem bundler_diagnostics_not_fatal:
  fixes P :: Platform and env :: Env and cmd :: PackageCommand
  defines "tgt \<equiv> runTarget P cmd"
  assumes init: "superInit env = None"
    and build: "buildRun env (files cmd) tgt = None"
    and load: "loadInfos env tgt = Inr infos"
    and nonempty: "fst (workingSet env cmd infos) \<noteq> []"
    and returned: "bundlerRun env tgt (enableMinify cmd)
        (bundleFiles P tgt (map (deriveInfo P tgt) (fst (workingSet env cmd infos)))) = Inr stats"
  shows "filter isDiagnosticLog (snd (run P env cmd))
           = map (\<lambda>d. LogError (Diag d)) (orEmpty (errors stats))
             @ map (\<lambda>d. LogWarn (Diag d)) (orEmpty (warnings stats))
       \<and> map Some (streamsOpened (snd (run P env cmd)))
           = map zipFile (map (deriveInfo P tgt) (fst (workingSet env cmd infos)))
       \<and> fst (run P env cmd) = fst (run P (withoutDiagnostics env) cmd)
       \<and> filter (\<lambda>a. \<not> isDiagnosticLog a) (snd (run P env cmd))
           = snd (run P (withoutDiagnostics env) cmd)
       \<and> ((\<forall>k < length (fst (workingSet env cmd infos)).
              closesCleanly (eventsOf k (archiveEvents env)))
            \<and> (\<forall>p d. writeJson env p d = None)
          \<longrightarrow> fst (run P env cmd) = Completed)"
proof -
  let ?ws = "fst (workingSet env cmd infos)"
  let ?F = "snd (workingSet env cmd infos)"
  let ?scripts = "map (deriveInfo P tgt) ?ws"
  let ?fs = "bundleFiles P tgt ?scripts"
  let ?B = "[BundlerRun ?fs] @ map (\<lambda>d. LogError (Diag d)) (orEmpty (errors stats))
             @ map (\<lambda>d. LogWarn (Diag d)) (orEmpty (warnings stats))"
  let ?started = "startedOps P ?scripts"
  let ?st = "awaitState P ?started (archiveEvents env)"
  let ?pks = "awaitOps P ?started (archiveEvents env)"
  let ?S = "startActions P ?scripts"
  let ?D = "awaitActs P ?started (archiveEvents env)"
  let ?W = "if ?st = AllResolved then writeActions ?pks else []"
  let ?out = "settledOutcome env ?st ?pks"
  let ?fin = "if ?out = Completed then [LogInfo completedMessage] else []"
  let ?L = "snd (deliverEach P ?pks (awaitRest P ?started (archiveEvents env)))"
  let ?q = "withoutDiagnostics env"
  have init': "superInit env = None" and build': "buildRun env (files cmd) (runTarget P cmd) = None"
    and load': "loadInfos env (runTarget P cmd) = Inr infos"
    using init build load unfolding tgt_def by simp_all
  have cb: "createBundles P env tgt (enableMinify cmd) ?scripts = (None, ?B)"
    using returned by (rule createBundles_returned)
  then have cb1: "fst (createBundles P env tgt (enableMinify cmd) ?scripts) = None" by simp
  have cbq: "createBundles P ?q tgt (enableMinify cmd) ?scripts = (None, [BundlerRun ?fs])"
    by (rule createBundles_withoutDiagnostics)
  then have cbq1: "fst (createBundles P ?q tgt (enableMinify cmd) ?scripts) = None" by simp
  note parts = packageScripts_bundled_parts [OF cb1]
  note partsq = packageScripts_bundled_parts [OF cbq1, unfolded withoutDiagnostics_same]
  have out: "fst (run P env cmd) = ?out"
    unfolding run_nonempty(1) [OF init' build' load' nonempty] tgt_def [symmetric] parts(1) ..
  have B: "snd (createBundles P env tgt (enableMinify cmd) ?scripts) = ?B"
    unfolding cb by simp
  have tr: "snd (run P env cmd) = ?F @ ?B @ ?S @ ?D @ ?W @ ?fin @ ?L"
    unfolding run_nonempty(2) [OF init' build' load' nonempty] tgt_def [symmetric] parts B
    by (simp only: append_assoc append_Cons append_Nil)
  have okq: "superInit ?q = None" "buildRun ?q (files cmd) (runTarget P cmd) = None"
      "loadInfos ?q (runTarget P cmd) = Inr infos" "fst (workingSet ?q cmd infos) \<noteq> []"
    using init' build' load' nonempty by (simp_all add: withoutDiagnostics_same)
  have outq: "fst (run P ?q cmd) = ?out"
    unfolding run_nonempty(1) [OF okq] tgt_def [symmetric] withoutDiagnostics_same partsq(1) ..
  have Bq: "snd (createBundles P ?q tgt (enableMinify cmd) ?scripts) = [BundlerRun ?fs]"
    unfolding cbq by simp
  have trq: "snd (run P ?q cmd) = ?F @ [BundlerRun ?fs] @ ?S @ ?D @ ?W @ ?fin @ ?L"
    unfolding run_nonempty(2) [OF okq] tgt_def [symmetric] withoutDiagnostics_same partsq Bq
    by (simp only: append_assoc append_Cons append_Nil)
  define F where "F = ?F"
  define B where "B = ?B"
  define S where "S = ?S"
  define D where "D = ?D"
  define W where "W = ?W"
  define fin where "fin = ?fin"
  define L where "L = ?L"
  have tr': "snd (run P env cmd) = F @ B @ S @ D @ W @ fin @ L"
    unfolding F_def B_def S_def D_def W_def fin_def L_def by (rule tr)
  have trq': "snd (run P ?q cmd) = F @ [BundlerRun ?fs] @ S @ D @ W @ fin @ L"
    unfolding F_def S_def D_def W_def fin_def L_def by (rule trq)
  have Fc: "\<forall>a \<in> set F. isFiltering a"
    unfolding F_def by (rule filtering_workingSet)
  have Sc: "\<forall>a \<in> set S. isArchiving a"
    unfolding S_def startActions_def by (rule archiving_starts)
  have Dc: "\<forall>a \<in> set D. isEventEffect a"
    unfolding D_def by (rule event_awaitActs)
  have Lc: "\<forall>a \<in> set L. isEventEffect a"
    unfolding L_def by (rule event_deliverEach)
  have Bd: "filter isDiagnosticLog B
        = map (\<lambda>d. LogError (Diag d)) (orEmpty (errors stats))
          @ map (\<lambda>d. LogWarn (Diag d)) (orEmpty (warnings stats))"
      "filter (\<lambda>a. \<not> isDiagnosticLog a) B = [BundlerRun ?fs]"
      "streamsOpened B = []"
    unfolding B_def by (rule diagnostics_of_bundling)+
  have Wd: "filter isDiagnosticLog W = []" "filter (\<lambda>a. \<not> isDiagnosticLog a) W = W"
      "streamsOpened W = []"
    unfolding W_def by (simp_all add: quiet_writes streamsOpened_Nil)
  have find: "filter isDiagnosticLog fin = []" "filter (\<lambda>a. \<not> isDiagnosticLog a) fin = fin"
      "streamsOpened fin = []"
    unfolding fin_def by (simp_all add: streamsOpened_def)
  have So: "map Some (streamsOpened S) = map zipFile ?scripts"
    unfolding S_def by (rule opened_starts)
  have diags: "filter isDiagnosticLog (snd (run P env cmd))
      = map (\<lambda>d. LogError (Diag d)) (orEmpty (errors stats))
        @ map (\<lambda>d. LogWarn (Diag d)) (orEmpty (warnings stats))"
    unfolding tr'
    by (simp add: quiet_filtering(1) [OF Fc] quiet_archiving(1) [OF Sc]
        quiet_events(1) [OF Dc] quiet_events(1) [OF Lc] Wd(1) find(1) Bd(1))
  have others: "filter (\<lambda>a. \<not> isDiagnosticLog a) (snd (run P env cmd)) = snd (run P ?q cmd)"
    unfolding tr' trq'
    by (simp add: quiet_filtering(2) [OF Fc] quiet_archiving(2) [OF Sc]
        quiet_events(2) [OF Dc] quiet_events(2) [OF Lc] Wd(2) find(2) Bd(2))
  have streams: "map Some (streamsOpened (snd (run P env cmd))) = map zipFile ?scripts"
    unfolding tr'
    by (simp add: streamsOpened_append quiet_filtering(3) [OF Fc] opened_events [OF Dc]
        opened_events [OF Lc] Wd(3) find(3) Bd(3) So)
  have completes: "fst (run P env cmd) = Completed"
    if clean: "\<forall>k < length ?ws. closesCleanly (eventsOf k (archiveEvents env))"
      and writes: "\<forall>p d. writeJson env p d = None"
  proof -
    have "\<forall>k < length ?started. onTrack (?started ! k) (eventsOf k (archiveEvents env))"
      using clean startedOps_fresh [of _ ?ws P tgt]
      by (simp add: onTrack_def startedOps_def)
    then have "?st = AllResolved" by (rule awaitState_resolves)
    moreover have "writeResult env ?pks = None"
      using writes by (rule writeResult_None)
    ultimately show ?thesis
      unfolding out by (simp add: settledOutcome_def)
  qed
  from diags streams out outq others completes show ?thesis by simp
qed

theorem bundler_diagnostics_not_fatal_witness:
  "superInit warnEnv = None
   \<and> filter isDiagnosticLog (snd (run posixPlatform warnEnv fullCmd)) = [LogWarn (Diag ''unused export'')]
   \<and> streamsOpened (snd (run posixPlatform warnEnv fullCmd))
       = [''/proj/.hlx/build/html.zip'', ''/proj/.hlx/build/json.zip'',
          ''/proj/.hlx/build/xml.zip'']
   \<and> fst (run posixPlatform warnEnv fullCmd) = Completed"
proof -
  let ?tgt = "runTarget posixPlatform fullCmd"
  let ?infos = "[htmlZipped, jsonStale, xmlNew]"
  let ?stats = "\<lparr>errors = Some [], warnings = Some [''unused export'']\<rparr>"
  have init: "superInit warnEnv = None" by (simp add: warnEnv_def)
  have build: "buildRun warnEnv (files fullCmd) ?tgt = None" by (simp add: warnEnv_def)
  have load: "loadInfos warnEnv ?tgt = Inr ?infos" by code_simp
  have nonempty: "fst (workingSet warnEnv fullCmd ?infos) \<noteq> []" by code_simp
  have returned: "bundlerRun warnEnv ?tgt (enableMinify fullCmd)
      (bundleFiles posixPlatform ?tgt (map (deriveInfo posixPlatform ?tgt)
         (fst (workingSet warnEnv fullCmd ?infos)))) = Inr ?stats"
    by (simp add: warnEnv_def)
  note T = bundler_diagnostics_not_fatal [OF init build load nonempty returned]
  have len: "length (fst (workingSet warnEnv fullCmd ?infos)) = Suc (Suc (Suc 0))" by code_simp
  have c0: "closesCleanly (eventsOf 0 (archiveEvents warnEnv))" by code_simp
  have c1: "closesCleanly (eventsOf (Suc 0) (archiveEvents warnEnv))" by code_simp
  have c2: "closesCleanly (eventsOf (Suc (Suc 0)) (archiveEvents warnEnv))" by code_simp
  have clean: "\<forall>k < length (fst (workingSet warnEnv fullCmd ?infos)).
      closesCleanly (eventsOf k (archiveEvents warnEnv))"
    unfolding len using c0 c1 c2 by (simp add: less_Suc_eq)
  have writes: "\<forall>p d. writeJson warnEnv p d = None" by (simp add: warnEnv_def)
  from T clean writes have finished: "fst (run posixPlatform warnEnv fullCmd) = Completed"
    by blast
  from T have "filter isDiagnosticLog (snd (run posixPlatform warnEnv fullCmd))
      = map (\<lambda>d. LogError (Diag d)) (orEmpty (errors ?stats))
        @ map (\<lambda>d. LogWarn (Diag d)) (orEmpty (warnings ?stats))"
    by blast
  then have diags: "filter isDiagnosticLog (snd (run posixPlatform warnEnv fullCmd))
      = [LogWarn (Diag ''unused export'')]"
    by (simp add: orEmpty_def)
  have zips: "map zipFile (map (deriveInfo posixPlatform ?tgt) (fst (workingSet warnEnv fullCmd ?infos)))
      = map Some [''/proj/.hlx/build/html.zip'', ''/proj/.hlx/build/json.zip'',
          ''/proj/.hlx/build/xml.zip'']"
    by code_simp
  from T have "map Some (streamsOpened (snd (run posixPlatform warnEnv fullCmd)))
      = map zipFile (map (deriveInfo posixPlatform ?tgt) (fst (workingSet warnEnv fullCmd ?infos)))"
    by blast
  then have "map Some (streamsOpened (snd (run posixPlatform warnEnv fullCmd)))
      = map Some [''/proj/.hlx/build/html.zip'', ''/proj/.hlx/build/json.zip'',
          ''/proj/.hlx/build/xml.zip'']"
    unfolding zips .
  then have streams: "streamsOpened (snd (run posixPlatform warnEnv fullCmd))
      = [''/proj/.hlx/build/html.zip'', ''/proj/.hlx/build/json.zip'',
          ''/proj/.hlx/build/xml.zip'']"
    by (simp add: map_eq_Cons_conv)
  from init diags streams finished show ?thesis by blast
qed

section \<open>Writing the descriptors back\<close>

lemma deliver_info:
  "(info (fst (deliver P pk ev)))\<lparr>archiveSize := None\<rparr> = (info pk)\<lparr>archiveSize := None\<rparr>"
  by (cases ev) (simp_all add: Let_def)

lemma deliverAt_infos:
  "map (\<lambda>pk. (info pk)\<lparr>archiveSize := None\<rparr>) (fst (deliverAt P pks e))
     = map (\<lambda>pk. (info pk)\<lparr>archiveSize := None\<rparr>) pks"
proof (cases e)
  case (Pair j ev)
  show ?thesis
  proof (cases "j < length pks")
    case False
    then show ?thesis by (simp add: Pair)
  next
    case True
    have "fst (deliverAt P pks (j, ev)) = pks[j := fst (deliver P (pks ! j) ev)]"
      using True by (simp split: prod.splits)
    then show ?thesis
      unfolding Pair using True
      by (simp add: map_update deliver_info list_update_same_conv del: deliverAt.simps)
  qed
qed

lemma awaitOps_infos:
  "map (\<lambda>pk. (info pk)\<lparr>archiveSize := None\<rparr>) (awaitOps P pks es)
     = map (\<lambda>pk. (info pk)\<lparr>archiveSize := None\<rparr>) pks"
proof (induction es arbitrary: pks)
  case Nil
  show ?case by (simp add: awaitOps_Nil)
next
  case (Cons e es)
  show ?case
    unfolding awaitOps_Cons using Cons.IH [of "fst (deliverAt P pks e)"]
    by (simp add: deliverAt_infos del: deliverAt.simps)
qed

lemma info_startedOps: "map info (startedOps P scripts) = scripts"
proof -
  have "info (fst (createPackageStart P i)) = i" for i
    by (cases "zipFile i") (simp_all add: createPackageStart_def Let_def)
  then show ?thesis
    by (simp add: startedOps_def comp_def)
qed

lemma deliver_sized: "sized pk \<Longrightarrow> sized (fst (deliver P pk ev))"
  by (cases ev) (auto simp: sized_def isResolved_def settle_def Let_def split: PromiseState.splits)

lemma deliverAt_sized:
  assumes "\<forall>pk \<in> set pks. sized pk"
  shows "\<forall>pk \<in> set (fst (deliverAt P pks e)). sized pk"
proof (cases e)
  case (Pair j ev)
  show ?thesis
  proof (cases "j < length pks")
    case False
    then show ?thesis using assms by (simp add: Pair)
  next
    case True
    have upd: "fst (deliverAt P pks (j, ev)) = pks[j := fst (deliver P (pks ! j) ev)]"
      using True by (simp split: prod.splits)
    have "sized (fst (deliver P (pks ! j) ev))"
      using assms True by (intro deliver_sized) simp
    then show ?thesis
      unfolding Pair upd using assms by (auto dest: set_update_subset_insert [THEN subsetD])
  qed
qed

lemma awaitOps_sized:
  assumes "\<forall>pk \<in> set pks. sized pk"
  shows "\<forall>pk \<in> set (awaitOps P pks es). sized pk"
  using assms
proof (induction es arbitrary: pks)
  case Nil
  then show ?case by (simp add: awaitOps_Nil)
next
  case (Cons e es)
  from deliverAt_sized [OF Cons.prems, of P e]
  have "\<forall>pk \<in> set (awaitOps P (fst (deliverAt P pks e)) es). sized pk"
    by (rule Cons.IH)
  with Cons.prems show ?case
    unfolding awaitOps_Cons by simp
qed

lemma startedOps_sized: "\<forall>pk \<in> set (startedOps P scripts). sized pk"
proof -
  have "sized (fst (createPackageStart P i))" for i
    by (cases "zipFile i") (simp_all add: createPackageStart_def sized_def isResolved_def Let_def)
  then show ?thesis by (auto simp: startedOps_def)
qed

lemma promiseAll_resolved: "promiseAll pks = AllResolved \<Longrightarrow> list_all isResolved pks"
  by (auto simp: promiseAll_def split: option.splits if_splits)

lemma awaitState_resolved:
  "awaitState P pks es = AllResolved \<Longrightarrow> list_all isResolved (awaitOps P pks es)"
proof (induction es arbitrary: pks)
  case Nil
  then show ?case by (simp add: awaitState_Nil awaitOps_Nil promiseAll_resolved)
next
  case (Cons e es)
  show ?case
  proof (cases "promiseAll pks = AllPending")
    case True
    with Cons.prems have "awaitState P (fst (deliverAt P pks e)) es = AllResolved"
      by (simp add: awaitState_Cons del: deliverAt.simps)
    then have "list_all isResolved (awaitOps P (fst (deliverAt P pks e)) es)"
      by (rule Cons.IH)
    with True show ?thesis by (simp add: awaitOps_Cons del: deliverAt.simps)
  next
    case False
    with Cons.prems have "promiseAll pks = AllResolved"
      by (simp add: awaitState_Cons del: deliverAt.simps)
    then have "list_all isResolved pks" by (rule promiseAll_resolved)
    with False show ?thesis by (simp add: awaitOps_Cons del: deliverAt.simps)
  qed
qed

lemma written_bundling:
  assumes "\<forall>a \<in> set acts. isBundling a"
  shows "writtenFiles acts = []"
  unfolding writtenFiles_def using assms by (intro concat_map_Nil) (simp add: bundling_reads)

lemma writtenFiles_LogInfo: "writtenFiles (LogInfo m # acts) = writtenFiles acts"
  by (simp add: writtenFiles_def)

lemma settledOutcome_Completed:
  "settledOutcome env st pks = Completed \<Longrightarrow> st = AllResolved \<and> writeResult env pks = None"
  by (auto simp: settledOutcome_def split: AllState.splits option.splits)

lemma infoFile_deriveInfo:
  "infoFile (deriveInfo P tgt s)
     = path_resolve P [tgt, if isStatic s then [] else path_dirname P (main s),
         path_basename_ext P (main s) ''.js'' @ ''.info.json'']"
  by (simp add: deriveInfo_def Let_def)

lemma infoFile_clear: "infoFile (d\<lparr>archiveSize := None\<rparr>) = infoFile d"
  by simp

text \<open>
  Claim C8, as amended.  At the end of every run that completes, the descriptors written
  are exactly those of the working set left by the incremental filter, in order, each
  with its derived fields and the size of its archive, and each to its derived
  \<open>infoFile\<close> path, the target directory resolved with \<open>dirname\<close> and
  \<open>name.info.json\<close>; a descriptor skipped by the filter is not written.
\<close>

theorem descriptors_written_back:
  fixes P :: Platform and env :: Env and cmd :: PackageCommand
  defines "tgt \<equiv> runTarget P cmd"
  assumes init: "superInit env = None"
    and build: "buildRun env (files cmd) tgt = None"
    and load: "loadInfos env tgt = Inr infos"
    and completed: "fst (run P env cmd) = Completed"
  shows "map fst (writtenFiles (snd (run P env cmd)))
           = map (\<lambda>s. path_resolve P [tgt, if isStatic s then [] else path_dirname P (main s),
                          path_basename_ext P (main s) ''.js'' @ ''.info.json''])
               (fst (workingSet env cmd infos))
       \<and> map (\<lambda>w. (snd w)\<lparr>archiveSize := None\<rparr>) (writtenFiles (snd (run P env cmd)))
           = map (\<lambda>s. (deriveInfo P tgt s)\<lparr>archiveSize := None\<rparr>) (fst (workingSet env cmd infos))
       \<and> (\<forall>w \<in> set (writtenFiles (snd (run P env cmd))).
             fst w = infoFile (snd w) \<and> archiveSize (snd w) \<noteq> None)"
proof -
  let ?ws = "fst (workingSet env cmd infos)"
  let ?F = "snd (workingSet env cmd infos)"
  let ?scripts = "map (deriveInfo P tgt) ?ws"
  let ?started = "startedOps P ?scripts"
  let ?st = "awaitState P ?started (archiveEvents env)"
  let ?pks = "awaitOps P ?started (archiveEvents env)"
  have init': "superInit env = None" and build': "buildRun env (files cmd) (runTarget P cmd) = None"
    and load': "loadInfos env (runTarget P cmd) = Inr infos"
    using init build load unfolding tgt_def by simp_all
  have F: "writtenFiles ?F = []"
    using filtering_workingSet by (rule quiet_filtering(4))
  show ?thesis
  proof (cases "?ws = []")
    case True
    have "snd (run P env cmd) = ?F @ [LogInfo completedMessage]"
      unfolding run_empty [OF init' build' load' True] by simp
    then have "writtenFiles (snd (run P env cmd)) = []"
      by (simp add: writtenFiles_append F writtenFiles_LogInfo writtenFiles_Nil)
    then show ?thesis using True by simp
  next
    case False
    let ?cb = "createBundles P env tgt (enableMinify cmd) ?scripts"
    have out: "fst (packageScripts P env tgt (enableMinify cmd) ?ws) = Completed"
      using completed
      unfolding run_nonempty(1) [OF init' build' load' False] tgt_def [symmetric] .
    have cb1: "fst ?cb = None"
    proof (cases "fst ?cb")
      case None
      then show ?thesis .
    next
      case (Some e)
      from out show ?thesis unfolding packageScripts_thrown [OF Some] by simp
    qed
    note parts = packageScripts_bundled_parts [OF cb1]
    from out have "settledOutcome env ?st ?pks = Completed"
      unfolding parts(1) .
    then have st: "?st = AllResolved" and wr: "writeResult env ?pks = None"
      using settledOutcome_Completed by blast+
    define B where "B = snd ?cb"
    define S where "S = startActions P ?scripts"
    define D where "D = awaitActs P ?started (archiveEvents env)"
    define L where "L = snd (deliverEach P ?pks (awaitRest P ?started (archiveEvents env)))"
    have tr: "snd (run P env cmd)
        = ?F @ B @ S @ D @ writeActions ?pks @ [LogInfo completedMessage] @ L"
      unfolding run_nonempty(2) [OF init' build' load' False] tgt_def [symmetric] parts
        B_def S_def D_def L_def
      using st out by (simp add: parts(1))
    have Bw: "writtenFiles B = []"
      unfolding B_def using bundling_createBundles by (rule written_bundling)
    have Sw: "writtenFiles S = []"
      unfolding S_def startActions_def using archiving_starts by (rule quiet_archiving(3))
    have Dw: "writtenFiles D = []"
      unfolding D_def using event_awaitActs by (rule written_events)
    have Lw: "writtenFiles L = []"
      unfolding L_def using event_deliverEach by (rule written_events)
    have written: "writtenFiles (snd (run P env cmd)) = map (\<lambda>s. (infoFile s, s)) (map info ?pks)"
      unfolding tr
      by (simp add: writtenFiles_append F Bw Sw Dw Lw quiet_writes(4) writtenFiles_LogInfo)
    have infos: "map (\<lambda>pk. (info pk)\<lparr>archiveSize := None\<rparr>) ?pks
        = map (\<lambda>s. (deriveInfo P tgt s)\<lparr>archiveSize := None\<rparr>) ?ws"
    proof -
      have "map (\<lambda>pk. (info pk)\<lparr>archiveSize := None\<rparr>) ?pks
          = map (\<lambda>d. d\<lparr>archiveSize := None\<rparr>) (map info ?started)"
        unfolding awaitOps_infos by (simp add: comp_def)
      also have "\<dots> = map (\<lambda>s. (deriveInfo P tgt s)\<lparr>archiveSize := None\<rparr>) ?ws"
        unfolding info_startedOps by (simp add: comp_def)
      finally show ?thesis .
    qed
    have paths: "map fst (writtenFiles (snd (run P env cmd)))
        = map (\<lambda>s. path_resolve P [tgt, if isStatic s then [] else path_dirname P (main s),
                          path_basename_ext P (main s) ''.js'' @ ''.info.json'']) ?ws"
    proof -
      have "map fst (writtenFiles (snd (run P env cmd)))
          = map (\<lambda>pk. infoFile ((info pk)\<lparr>archiveSize := None\<rparr>)) ?pks"
        unfolding written by (simp add: comp_def)
      also have "\<dots> = map infoFile (map (\<lambda>pk. (info pk)\<lparr>archiveSize := None\<rparr>) ?pks)"
        by (simp add: comp_def)
      also have "\<dots> = map (\<lambda>s. infoFile (deriveInfo P tgt s)) ?ws"
        unfolding infos by (simp add: comp_def)
      finally show ?thesis unfolding infoFile_deriveInfo .
    qed
    have contents: "map (\<lambda>w. (snd w)\<lparr>archiveSize := None\<rparr>) (writtenFiles (snd (run P env cmd)))
        = map (\<lambda>s. (deriveInfo P tgt s)\<lparr>archiveSize := None\<rparr>) ?ws"
      unfolding written infos [symmetric] by (simp add: comp_def)
    have resolved: "list_all isResolved ?pks"
      using st by (rule awaitState_resolved)
    have "\<forall>pk \<in> set ?pks. sized pk"
      using startedOps_sized by (rule awaitOps_sized)
    with resolved have sizes: "\<forall>pk \<in> set ?pks. archiveSize (info pk) \<noteq> None"
      by (simp add: sized_def list_all_iff)
    have each: "\<forall>w \<in> set (writtenFiles (snd (run P env cmd))).
        fst w = infoFile (snd w) \<and> archiveSize (snd w) \<noteq> None"
      unfolding written using sizes by auto
    from paths contents each show ?thesis by simp
  qed
qed

text \<open>
  Claim C8 as stated fails in incremental mode: \<open>html.info.json\<close> is loaded at the start
  of the run, its archive exists, the run completes, and the file is not written back.
\<close>

theorem write_back_counterexample:
  "globSync warnEnv (runTarget posixPlatform incrementalCmd @ ''/**/*.info.json'')
     = [''/proj/.hlx/build/html.info.json'', ''/proj/.hlx/build/json.info.json'',
        ''/proj/.hlx/build/xml.info.json'']
   \<and> readJSON warnEnv ''/proj/.hlx/build/html.info.json'' = Inr htmlZipped
   \<and> fst (run posixPlatform warnEnv incrementalCmd) = Completed
   \<and> map fst (writtenFiles (snd (run posixPlatform warnEnv incrementalCmd)))
       = [''/proj/.hlx/build/json.info.json'', ''/proj/.hlx/build/xml.info.json'']"
  by code_simp

theorem descriptors_written_back_witness:
  "superInit warnEnv = None
   \<and> fst (run posixPlatform warnEnv fullCmd) = Completed
   \<and> map fst (writtenFiles (snd (run posixPlatform warnEnv fullCmd)))
       = [''/proj/.hlx/build/html.info.json'', ''/proj/.hlx/build/json.info.json'',
         ''/proj/.hlx/build/xml.info.json'']"
proof -
  let ?tgt = "runTarget posixPlatform fullCmd"
  let ?infos = "[htmlZipped, jsonStale, xmlNew]"
  have init: "superInit warnEnv = None" by (simp add: warnEnv_def)
  have build: "buildRun warnEnv (files fullCmd) ?tgt = None" by (simp add: warnEnv_def)
  have load: "loadInfos warnEnv ?tgt = Inr ?infos" by code_simp
  have completed: "fst (run posixPlatform warnEnv fullCmd) = Completed" by code_simp
  note T = descriptors_written_back [OF init build load completed]
  have paths: "map (\<lambda>s. path_resolve posixPlatform
        [?tgt, if isStatic s then [] else path_dirname posixPlatform (main s),
         path_basename_ext posixPlatform (main s) ''.js'' @ ''.info.json''])
      (fst (workingSet warnEnv fullCmd ?infos))
      = [''/proj/.hlx/build/html.info.json'', ''/proj/.hlx/build/json.info.json'',
         ''/proj/.hlx/build/xml.info.json'']"
    by code_simp
  from T have "map fst (writtenFiles (snd (run posixPlatform warnEnv fullCmd)))
      = map (\<lambda>s. path_resolve posixPlatform
        [?tgt, if isStatic s then [] else path_dirname posixPlatform (main s),
         path_basename_ext posixPlatform (main s) ''.js'' @ ''.info.json''])
      (fst (workingSet warnEnv fullCmd ?infos))"
    by blast
  then have "map fst (writtenFiles (snd (run posixPlatform warnEnv fullCmd)))
      = [''/proj/.hlx/build/html.info.json'', ''/proj/.hlx/build/json.info.json'',
         ''/proj/.hlx/build/xml.info.json'']"
    unfolding paths .
  with init completed show ?thesis by blast
qed

section \<open>The incremental filter within a run\<close>

lemma after_filter_reads:
  assumes "isBundling a \<or> isArchiving a \<or> isWrite a \<or> a = LogInfo m"
  shows "ignoredPackage a = []" and "pathCheck a = []"
  using assms by (cases a rule: isArchiving.cases; auto)+

lemma after_filter_quiet:
  assumes "\<forall>a \<in> set acts. isBundling a \<or> isArchiving a \<or> isWrite a \<or> a = LogInfo completedMessage"
  shows "ignorePackageNotifications acts = []" and "pathChecks acts = []"
proof -
  show "ignorePackageNotifications acts = []"
    unfolding ignorePackageNotifications_def using assms
    by (intro concat_map_Nil) (auto simp: after_filter_reads)
  show "pathChecks acts = []"
    unfolding pathChecks_def using assms
    by (intro concat_map_Nil) (auto simp: after_filter_reads)
qed

lemma run_after_filter:
  assumes "superInit env = None"
    and "buildRun env (files cmd) (runTarget P cmd) = None"
    and "loadInfos env (runTarget P cmd) = Inr infos"
  shows "\<exists>rest. snd (run P env cmd) = snd (workingSet env cmd infos) @ rest
     \<and> (\<forall>a \<in> set rest. isBundling a \<or> isArchiving a \<or> isWrite a \<or> a = LogInfo completedMessage)"
proof (cases "fst (workingSet env cmd infos) = []")
  case True
  show ?thesis
    unfolding run_empty [OF assms True] by simp
next
  case False
  let ?ws = "fst (workingSet env cmd infos)"
  let ?ps = "packageScripts P env (runTarget P cmd) (enableMinify cmd) ?ws"
  let ?fin = "if fst ?ps = Completed then [LogInfo completedMessage] else []"
  let ?bund = "snd (createBundles P env (runTarget P cmd) (enableMinify cmd)
                       (map (deriveInfo P (runTarget P cmd)) ?ws))"
  obtain rest where acts: "fst (snd ?ps) = ?bund @ rest"
      and rest: "\<forall>a \<in> set rest. isArchiving a \<or> isWrite a"
    using packageScripts_acts [of P env "runTarget P cmd" "enableMinify cmd" ?ws] by blast
  have tr: "snd (run P env cmd)
      = snd (workingSet env cmd infos) @ (?bund @ rest @ ?fin @ snd (snd ?ps))"
    unfolding run_nonempty(2) [OF assms False] acts by simp
  have "\<forall>a \<in> set (?bund @ rest @ ?fin @ snd (snd ?ps)).
      isBundling a \<or> isArchiving a \<or> isWrite a \<or> a = LogInfo completedMessage"
    using rest bundling_createBundles [of P env "runTarget P cmd" "enableMinify cmd"]
      packageScripts_later [of P env "runTarget P cmd" "enableMinify cmd" ?ws]
    by auto
  with tr show ?thesis by blast
qed

lemma run_filter_effects:
  assumes "superInit env = None"
    and "buildRun env (files cmd) (runTarget P cmd) = None"
    and "loadInfos env (runTarget P cmd) = Inr infos"
  shows "ignorePackageNotifications (snd (run P env cmd))
           = ignorePackageNotifications (snd (workingSet env cmd infos))"
    and "pathChecks (snd (run P env cmd)) = pathChecks (snd (workingSet env cmd infos))"
proof -
  obtain rest where tr: "snd (run P env cmd) = snd (workingSet env cmd infos) @ rest"
      and rest: "\<forall>a \<in> set rest. isBundling a \<or> isArchiving a \<or> isWrite a
                    \<or> a = LogInfo completedMessage"
    using run_after_filter [OF assms] by blast
  show "ignorePackageNotifications (snd (run P env cmd))
           = ignorePackageNotifications (snd (workingSet env cmd infos))"
    unfolding tr ignorePackageNotifications_append after_filter_quiet(1) [OF rest] by simp
  show "pathChecks (snd (run P env cmd)) = pathChecks (snd (workingSet env cmd infos))"
    unfolding tr pathChecks_append after_filter_quiet(2) [OF rest] by simp
qed

text \<open>
  Claim C4.  In incremental mode the working set is the descriptors whose \<open>zipFile\<close>
  does not name an existing path, in order, each with \<open>zipFile\<close> removed; the
  \<open>ignore-package\<close> notifications carry exactly the descriptors whose \<open>zipFile\<close> path
  exists, one for each, in order.  So a descriptor whose \<open>zipFile\<close> path exists is not
  in the working set and is notified once for each time it occurs; a descriptor whose
  \<open>zipFile\<close> path does not exist is in the working set without its \<open>zipFile\<close> and
  is not notified.  The notifications of the whole run are those of the filter.
\<close>

theorem incremental_filter:
  assumes inc: "onlyModified cmd"
  shows "fst (workingSet env cmd scriptInfos)
           = map (\<lambda>d. d\<lparr>zipFile := None\<rparr>)
               (filter (\<lambda>d. \<not> zipOnDisk env d) (flattenDependencies scriptInfos))
       \<and> ignorePackageNotifications (snd (workingSet env cmd scriptInfos))
           = filter (zipOnDisk env) (flattenDependencies scriptInfos)
       \<and> (\<forall>d \<in> set (flattenDependencies scriptInfos).
            (\<exists>p. zipFile d = Some p \<and> p \<noteq> [] \<and> pathExists env p) \<longrightarrow>
              d \<notin> set (fst (workingSet env cmd scriptInfos))
              \<and> count_list (ignorePackageNotifications (snd (workingSet env cmd scriptInfos))) d
                  = count_list (flattenDependencies scriptInfos) d)
       \<and> (\<forall>d \<in> set (flattenDependencies scriptInfos).
            (\<exists>p. zipFile d = Some p \<and> p \<noteq> [] \<and> \<not> pathExists env p) \<longrightarrow>
              d\<lparr>zipFile := None\<rparr> \<in> set (fst (workingSet env cmd scriptInfos))
              \<and> d \<notin> set (ignorePackageNotifications (snd (workingSet env cmd scriptInfos))))
       \<and> (superInit env = None \<and> buildRun env (files cmd) (runTarget P cmd) = None
            \<and> loadInfos env (runTarget P cmd) = Inr scriptInfos
          \<longrightarrow> ignorePackageNotifications (snd (run P env cmd))
                = filter (zipOnDisk env) (flattenDependencies scriptInfos))"
proof -
  let ?scripts = "flattenDependencies scriptInfos"
  let ?ws = "workingSet env cmd scriptInfos"
  have ws: "?ws = filterModified env ?scripts"
    using inc by (rule workingSet_onlyModified)
  have working: "fst ?ws = map (\<lambda>d. d\<lparr>zipFile := None\<rparr>) (filter (\<lambda>d. \<not> zipOnDisk env d) ?scripts)"
    unfolding ws by (rule working_filterModified)
  have ignored: "ignorePackageNotifications (snd ?ws) = filter (zipOnDisk env) ?scripts"
    unfolding ws by (rule ignored_filterModified)
  have skipped: "\<forall>d \<in> set ?scripts.
      (\<exists>p. zipFile d = Some p \<and> p \<noteq> [] \<and> pathExists env p) \<longrightarrow>
        d \<notin> set (fst ?ws) \<and> count_list (ignorePackageNotifications (snd ?ws)) d = count_list ?scripts d"
  proof (intro ballI impI)
    fix d assume d: "d \<in> set ?scripts"
      and ex: "\<exists>p. zipFile d = Some p \<and> p \<noteq> [] \<and> pathExists env p"
    from ex have on: "zipOnDisk env d" by (auto simp: zipOnDisk_def)
    from ex have some: "zipFile d \<noteq> None" by auto
    have "\<forall>w \<in> set (fst ?ws). zipFile w = None"
      unfolding working by simp
    with some have out: "d \<notin> set (fst ?ws)" by auto
    have "count_list (ignorePackageNotifications (snd ?ws)) d = count_list ?scripts d"
      unfolding ignored using on by (simp add: count_list_filter)
    with out show "d \<notin> set (fst ?ws)
        \<and> count_list (ignorePackageNotifications (snd ?ws)) d = count_list ?scripts d"
      by simp
  qed
  have kept: "\<forall>d \<in> set ?scripts.
      (\<exists>p. zipFile d = Some p \<and> p \<noteq> [] \<and> \<not> pathExists env p) \<longrightarrow>
        d\<lparr>zipFile := None\<rparr> \<in> set (fst ?ws) \<and> d \<notin> set (ignorePackageNotifications (snd ?ws))"
  proof (intro ballI impI)
    fix d assume d: "d \<in> set ?scripts"
      and ex: "\<exists>p. zipFile d = Some p \<and> p \<noteq> [] \<and> \<not> pathExists env p"
    from ex have off: "\<not> zipOnDisk env d" by (auto simp: zipOnDisk_def)
    from d off have "d\<lparr>zipFile := None\<rparr> \<in> set (fst ?ws)"
      unfolding working by auto
    moreover from off have "d \<notin> set (ignorePackageNotifications (snd ?ws))"
      unfolding ignored by simp
    ultimately show "d\<lparr>zipFile := None\<rparr> \<in> set (fst ?ws)
        \<and> d \<notin> set (ignorePackageNotifications (snd ?ws))"
      by simp
  qed
  have whole: "ignorePackageNotifications (snd (run P env cmd)) = filter (zipOnDisk env) ?scripts"
    if ok: "superInit env = None \<and> buildRun env (files cmd) (runTarget P cmd) = None
            \<and> loadInfos env (runTarget P cmd) = Inr scriptInfos"
  proof -
    from ok have "ignorePackageNotifications (snd (run P env cmd))
        = ignorePackageNotifications (snd ?ws)"
      by (intro run_filter_effects) simp_all
    then show ?thesis unfolding ignored .
  qed
  from working ignored skipped kept whole show ?thesis by blast
qed

theorem incremental_filter_witness:
  "onlyModified incrementalCmd
   \<and> zipFile htmlZipped = Some ''/proj/.hlx/build/html.zip''
   \<and> pathExists warnEnv ''/proj/.hlx/build/html.zip''
   \<and> fst (workingSet warnEnv incrementalCmd [htmlZipped, jsonStale, xmlNew])
       = [jsonStale\<lparr>zipFile := None\<rparr>, xmlNew]
   \<and> ignorePackageNotifications (snd (workingSet warnEnv incrementalCmd [htmlZipped, jsonStale, xmlNew]))
       = [htmlZipped]
   \<and> ignorePackageNotifications (snd (run posixPlatform warnEnv incrementalCmd)) = [htmlZipped]"
proof -
  let ?infos = "[htmlZipped, jsonStale, xmlNew]"
  have inc: "onlyModified incrementalCmd" by (simp add: incrementalCmd_def)
  note T = incremental_filter [OF inc, of warnEnv ?infos posixPlatform]
  have zip: "zipFile htmlZipped = Some ''/proj/.hlx/build/html.zip''"
    by (simp add: htmlZipped_def blankInfo_def)
  have disk: "pathExists warnEnv ''/proj/.hlx/build/html.zip''"
    by (simp add: warnEnv_def)
  have init: "superInit warnEnv = None" by (simp add: warnEnv_def)
  have build: "buildRun warnEnv (files incrementalCmd) (runTarget posixPlatform incrementalCmd) = None"
    by (simp add: warnEnv_def)
  have load: "loadInfos warnEnv (runTarget posixPlatform incrementalCmd) = Inr ?infos"
    by code_simp
  have kept: "map (\<lambda>d. d\<lparr>zipFile := None\<rparr>)
      (filter (\<lambda>d. \<not> zipOnDisk warnEnv d) (flattenDependencies ?infos))
      = [jsonStale\<lparr>zipFile := None\<rparr>, xmlNew]"
    by code_simp
  have skipped: "filter (zipOnDisk warnEnv) (flattenDependencies ?infos) = [htmlZipped]"
    by code_simp
  from T have "fst (workingSet warnEnv incrementalCmd ?infos)
      = map (\<lambda>d. d\<lparr>zipFile := None\<rparr>)
          (filter (\<lambda>d. \<not> zipOnDisk warnEnv d) (flattenDependencies ?infos))"
    by blast
  then have w: "fst (workingSet warnEnv incrementalCmd ?infos) = [jsonStale\<lparr>zipFile := None\<rparr>, xmlNew]"
    unfolding kept .
  from T have "ignorePackageNotifications (snd (workingSet warnEnv incrementalCmd ?infos))
      = filter (zipOnDisk warnEnv) (flattenDependencies ?infos)"
    by blast
  then have n: "ignorePackageNotifications (snd (workingSet warnEnv incrementalCmd ?infos))
      = [htmlZipped]"
    unfolding skipped .
  from T init build load have "ignorePackageNotifications (snd (run posixPlatform warnEnv incrementalCmd))
      = filter (zipOnDisk warnEnv) (flattenDependencies ?infos)"
    by blast
  then have r: "ignorePackageNotifications (snd (run posixPlatform warnEnv incrementalCmd))
      = [htmlZipped]"
    unfolding skipped .
  from inc zip disk w n r show ?thesis by blast
qed

text \<open>
  Claim C9.  In incremental mode a descriptor with no \<open>zipFile\<close>, or with an empty
  one, stays in the working set and is never the subject of an \<open>ignore-package\<close>
  notification; its check has no effect and the same result in every environment, so
  the file system is not asked about it: the existence checks of the filter, and of the
  whole run, are those of the non-empty \<open>zipFile\<close> paths.
\<close>

theorem incremental_filter_falsy:
  assumes inc: "onlyModified cmd"
    and d: "d \<in> set (flattenDependencies scriptInfos)"
    and falsy: "zipFile d = None \<or> zipFile d = Some []"
  shows "d\<lparr>zipFile := None\<rparr> \<in> set (fst (workingSet env cmd scriptInfos))
       \<and> d \<notin> set (ignorePackageNotifications (snd (workingSet env cmd scriptInfos)))
       \<and> checkZip anyEnv d = (d\<lparr>zipFile := None\<rparr>, [])
       \<and> pathChecks (snd (workingSet env cmd scriptInfos))
           = truthyZipFiles (flattenDependencies scriptInfos)
       \<and> [] \<notin> set (pathChecks (snd (workingSet env cmd scriptInfos)))
       \<and> (superInit env = None \<and> buildRun env (files cmd) (runTarget P cmd) = None
            \<and> loadInfos env (runTarget P cmd) = Inr scriptInfos
          \<longrightarrow> pathChecks (snd (run P env cmd)) = truthyZipFiles (flattenDependencies scriptInfos)
              \<and> d \<notin> set (ignorePackageNotifications (snd (run P env cmd))))"
proof -
  let ?scripts = "flattenDependencies scriptInfos"
  let ?ws = "workingSet env cmd scriptInfos"
  have ws: "?ws = filterModified env ?scripts"
    using inc by (rule workingSet_onlyModified)
  from falsy have off: "\<not> zipOnDisk env d" by (auto simp: zipOnDisk_def)
  have kept: "d\<lparr>zipFile := None\<rparr> \<in> set (fst ?ws)"
    unfolding ws working_filterModified using d off by auto
  have quiet: "d \<notin> set (ignorePackageNotifications (snd ?ws))"
    unfolding ws ignored_filterModified using off by simp
  have nocheck: "checkZip anyEnv d = (d\<lparr>zipFile := None\<rparr>, [])"
    using falsy by (auto simp: checkZip_def)
  have checks: "pathChecks (snd ?ws) = truthyZipFiles ?scripts"
    unfolding ws by (rule pathChecks_filterModified)
  have nonempty: "[] \<notin> set (truthyZipFiles ?scripts)"
    by (auto simp: truthyZipFiles_def split: option.splits if_splits)
  then have nonempty': "[] \<notin> set (pathChecks (snd ?ws))"
    unfolding checks .
  have whole: "pathChecks (snd (run P env cmd)) = truthyZipFiles ?scripts
      \<and> d \<notin> set (ignorePackageNotifications (snd (run P env cmd)))"
    if ok: "superInit env = None \<and> buildRun env (files cmd) (runTarget P cmd) = None
            \<and> loadInfos env (runTarget P cmd) = Inr scriptInfos"
  proof -
    from ok have "pathChecks (snd (run P env cmd)) = pathChecks (snd ?ws)"
      by (intro run_filter_effects) simp_all
    moreover from ok have "ignorePackageNotifications (snd (run P env cmd))
        = ignorePackageNotifications (snd ?ws)"
      by (intro run_filter_effects) simp_all
    ultimately show ?thesis using checks quiet by simp
  qed
  from kept quiet nocheck checks nonempty' whole show ?thesis by blast
qed

theorem incremental_filter_falsy_witness:
  "onlyModified incrementalCmd
   \<and> zipFile xmlNew = None
   \<and> xmlNew\<lparr>zipFile := None\<rparr> \<in> set (fst (workingSet warnEnv incrementalCmd [htmlZipped, jsonStale, xmlNew]))
   \<and> xmlNew \<notin> set (ignorePackageNotifications
         (snd (workingSet warnEnv incrementalCmd [htmlZipped, jsonStale, xmlNew])))
   \<and> pathChecks (snd (run posixPlatform warnEnv incrementalCmd))
       = [''/proj/.hlx/build/html.zip'', ''/proj/.hlx/build/json.zip'']"
proof -
  let ?infos = "[htmlZipped, jsonStale, xmlNew]"
  have inc: "onlyModified incrementalCmd" by (simp add: incrementalCmd_def)
  have d: "xmlNew \<in> set (flattenDependencies ?infos)" by code_simp
  have none: "zipFile xmlNew = None" by (simp add: xmlNew_def blankInfo_def)
  then have falsy: "zipFile xmlNew = None \<or> zipFile xmlNew = Some []" by simp
  note T = incremental_filter_falsy [OF inc d falsy, of warnEnv _ posixPlatform]
  have init: "superInit warnEnv = None" by (simp add: warnEnv_def)
  have build: "buildRun warnEnv (files incrementalCmd) (runTarget posixPlatform incrementalCmd) = None"
    by (simp add: warnEnv_def)
  have load: "loadInfos warnEnv (runTarget posixPlatform incrementalCmd) = Inr ?infos"
    by code_simp
  have paths: "truthyZipFiles (flattenDependencies ?infos)
      = [''/proj/.hlx/build/html.zip'', ''/proj/.hlx/build/json.zip'']"
    by code_simp
  from T init build load have "pathChecks (snd (run posixPlatform warnEnv incrementalCmd))
      = truthyZipFiles (flattenDependencies ?infos)"
    by blast
  then have checks: "pathChecks (snd (run posixPlatform warnEnv incrementalCmd))
      = [''/proj/.hlx/build/html.zip'', ''/proj/.hlx/build/json.zip'']"
    unfolding paths .
  from T have kept: "xmlNew\<lparr>zipFile := None\<rparr> \<in> set (fst (workingSet warnEnv incrementalCmd ?infos))"
    by blast
  from T have quiet: "xmlNew \<notin> set (ignorePackageNotifications
      (snd (workingSet warnEnv incrementalCmd ?infos)))"
    by blast
  from inc none kept quiet checks show ?thesis by blast
qed

end
